theory Spec2Isabelle
  imports Main "HOL-Library.Word" "HOL-Library.Multiset"
begin

section \<open>JavaScript strings\<close>

text \<open>
  A JavaScript string is a sequence of 16-bit code units.  String literals of the source
  that are plain ASCII are written with \<open>ascii\<close>; the two Japanese literals are
  spelled out as code units.
\<close>

type_synonym jchar = "16 word"
type_synonym jstring = "jchar list"

definition ascii :: "string \<Rightarrow> jstring" where
  "ascii s = map (\<lambda>c. of_nat (of_char c)) s"

text \<open>ECMAScript \<open>LineTerminator\<close>: LF, CR, LS, PS (what \<open>.\<close> in a regex refuses).\<close>

definition is_line_terminator :: "jchar \<Rightarrow> bool" where
  "is_line_terminator c \<longleftrightarrow> c \<in> {0x0A, 0x0D, 0x2028, 0x2029}"

text \<open>
  What \<open>String.prototype.trim\<close> strips and the regex class \<open>\s\<close> accepts:
  \<open>WhiteSpace\<close> (TAB, VT, FF, SP, NBSP, ZWNBSP and the category Zs) and
  \<open>LineTerminator\<close>.
\<close>

definition is_ws :: "jchar \<Rightarrow> bool" where
  "is_ws c \<longleftrightarrow>
     c \<in> {0x09, 0x0B, 0x0C, 0x20, 0xA0, 0xFEFF, 0x1680, 0x202F, 0x205F, 0x3000}
     \<or> (0x2000 \<le> c \<and> c \<le> 0x200A) \<or> is_line_terminator c"

text \<open>The regex class \<open>\d\<close>: the ASCII digits only.\<close>

definition is_digit :: "jchar \<Rightarrow> bool" where
  "is_digit c \<longleftrightarrow> 0x30 \<le> c \<and> c \<le> 0x39"

definition trim :: "jstring \<Rightarrow> jstring" where
  "trim s = rev (dropWhile is_ws (rev (dropWhile is_ws s)))"

definition starts_with :: "jstring \<Rightarrow> jstring \<Rightarrow> bool" where
  "starts_with p s \<longleftrightarrow> take (length p) s = p"

definition ends_with :: "jstring \<Rightarrow> jstring \<Rightarrow> bool" where
  "ends_with p s \<longleftrightarrow> length p \<le> length s \<and> drop (length s - length p) s = p"

text \<open>\<open>s.split(c)\<close> for a one-character separator: never the empty array.\<close>

fun split_on :: "jchar \<Rightarrow> jstring \<Rightarrow> jstring list" where
  "split_on c [] = [[]]"
| "split_on c (x # xs) =
     (if x = c then [] # split_on c xs
      else (case split_on c xs of
              [] \<Rightarrow> [[x]]
            | l # ls \<Rightarrow> (x # l) # ls))"

text \<open>\<open>a.join(sep)\<close>.\<close>

fun join_with :: "jstring \<Rightarrow> jstring list \<Rightarrow> jstring" where
  "join_with sep [] = []"
| "join_with sep [l] = l"
| "join_with sep (l # ls) = l @ sep @ join_with sep ls"

section \<open>Asset index and reference resolver\<close>

text \<open>\<open>interface ImageFile\<close>; the \<open>File\<close> handle of the later variant is never read.\<close>

record imagefile =
  name :: jstring
  dataUrl :: jstring

text \<open>
  \<open>imageMap\<close>: \<open>images.forEach((img) => map.set(img.name, img.dataUrl))\<close>, a later
  upload of the same name overwriting the earlier one.
\<close>

definition imageMap :: "imagefile list \<Rightarrow> (jstring \<rightharpoonup> jstring)" where
  "imageMap images = foldl (\<lambda>m img. m(name img \<mapsto> dataUrl img)) Map.empty images"

text \<open>\<open>src.split('/').pop()\<close>: the part after the last slash.\<close>

definition basename :: "jstring \<Rightarrow> jstring" where
  "basename src = last (split_on 0x2F src)"

text \<open>
  \<open>resolveImageSrc\<close> (src/app/page.tsx): \<open>null\<close> is \<open>None\<close>; an empty file name
  and an empty stored URL are falsy.
\<close>

definition resolveImageSrc :: "imagefile list \<Rightarrow> jstring \<Rightarrow> jstring option" where
  "resolveImageSrc images src =
     (let fileName = basename src in
      if fileName = [] then None
      else (case imageMap images fileName of
              None \<Rightarrow> None
            | Some url \<Rightarrow> if url = [] then None else Some url))"

text \<open>
  The lookup written inline in the later variant (src/unnamed/part_001):
  \<open>imageMap.get(fileName) || null\<close> with \<open>fileName = srcStr.split('/').pop() || ''\<close>.
\<close>

definition resolveInline :: "imagefile list \<Rightarrow> jstring \<Rightarrow> jstring option" where
  "resolveInline images srcStr =
     (case imageMap images (basename srcStr) of
        None \<Rightarrow> None
      | Some url \<Rightarrow> if url = [] then None else Some url)"




section \<open>Auto-Linker (src/unnamed/part_001, \<open>processedMarkdown\<close>)\<close>

subsection \<open>The regular expressions\<close>

text \<open>
  \<open>.*?\<close> followed by a literal: the first occurrence of the literal that is reached
  over characters other than line terminators; the result is what follows the literal.
\<close>

fun lazy_dots_then :: "jstring \<Rightarrow> jstring \<Rightarrow> jstring option" where
  "lazy_dots_then lit [] = (if lit = [] then Some [] else None)"
| "lazy_dots_then lit (c # cs) =
     (if starts_with lit (c # cs) then Some (drop (length lit) (c # cs))
      else if is_line_terminator c then None
      else lazy_dots_then lit cs)"

text \<open>\<open>/!\[.*?\]\(.*?\)/.test(markdownContent)\<close>: a match may start anywhere.\<close>

fun mdHasImageRefs :: "jstring \<Rightarrow> bool" where
  "mdHasImageRefs [] = False"
| "mdHasImageRefs (c # cs) =
     ((starts_with (ascii ''!['') (c # cs) \<and>
       (case lazy_dots_then (ascii '']('') (drop 2 (c # cs)) of
          None \<Rightarrow> False
        | Some r \<Rightarrow> lazy_dots_then (ascii '')'') r \<noteq> None))
      \<or> mdHasImageRefs cs)"

text \<open>
  \<open>line.match(/^## (\d+)\.\s/)\<close>: the captured digits.  The greedy \<open>\d+\<close> has to take
  the whole run of digits, since a dot must follow it.
\<close>

definition h2Match :: "jstring \<Rightarrow> jstring option" where
  "h2Match line =
     (if starts_with (ascii ''## '') line then
        (let ds = takeWhile is_digit (drop 3 line);
             after = dropWhile is_digit (drop 3 line)
         in if ds \<noteq> [] \<and> (case after of dot # w # _ \<Rightarrow> dot = 0x2E \<and> is_ws w | _ \<Rightarrow> False)
            then Some ds else None)
      else None)"

text \<open>\<open>line.match(/^### (\d+)[-.](\d+)/)\<close>: both captured groups.\<close>

definition h3Match :: "jstring \<Rightarrow> (jstring \<times> jstring) option" where
  "h3Match line =
     (if starts_with (ascii ''### '') line then
        (let ds1 = takeWhile is_digit (drop 4 line);
             after = dropWhile is_digit (drop 4 line)
         in (case after of
               [] \<Rightarrow> None
             | sep # rest \<Rightarrow>
                 (let ds2 = takeWhile is_digit rest
                  in if ds1 \<noteq> [] \<and> (sep = 0x2D \<or> sep = 0x2E) \<and> ds2 \<noteq> []
                     then Some (ds1, ds2) else None)))
      else None)"

text \<open>
  \<open>parseInt(ds).toString()\<close> (also under a template literal) for a string of digits.
  Every integer below \<open>10^15\<close> is a double and prints as its digits without leading
  zeros.  A longer number is rounded to a double and may print with an exponent; that
  formatting is not modelled but taken as the parameter \<open>big\<close>, applied to the digits
  without their leading zeros.
\<close>

definition parseInt_toString :: "(jstring \<Rightarrow> jstring) \<Rightarrow> jstring \<Rightarrow> jstring" where
  "parseInt_toString big ds =
     (let r = dropWhile (\<lambda>c. c = 0x30) ds
      in if r = [] then [0x30] else if length r \<le> 15 then r else big r)"

text \<open>The separators \<open>[-_.]\<close> of the file name pattern.\<close>

definition is_sep :: "jchar \<Rightarrow> bool" where
  "is_sep c \<longleftrightarrow> c = 0x2D \<or> c = 0x5F \<or> c = 0x2E"

text \<open>
  \<open>0*(\d+)[-_.]\<close> at the start of a string: the captured group and what follows the
  separator.  \<open>0*\<close> is greedy and gives one zero back when the run has zeros only.
\<close>

definition num_group :: "jstring \<Rightarrow> (jstring \<times> jstring) option" where
  "num_group s =
     (let ds = takeWhile is_digit s; after = dropWhile is_digit s
      in (case after of
            [] \<Rightarrow> None
          | sep # rest \<Rightarrow>
              if ds \<noteq> [] \<and> is_sep sep
              then Some (let r = dropWhile (\<lambda>c. c = 0x30) ds in if r = [] then [0x30] else r, rest)
              else None))"

text \<open>
  \<open>img.name.match(/^0*(\d+)[-_.](?:0*(\d+)[-_.])?/)\<close>: \<open>match[1]\<close> and \<open>match[2]\<close>,
  the latter \<open>undefined\<close> (\<open>None\<close>) when the optional group does not take part.
\<close>

definition nameMatch :: "jstring \<Rightarrow> (jstring \<times> jstring option) option" where
  "nameMatch nm =
     (case num_group nm of
        None \<Rightarrow> None
      | Some (g1, rest) \<Rightarrow>
          (case num_group rest of
             None \<Rightarrow> Some (g1, None)
           | Some (g2, _) \<Rightarrow> Some (g1, Some g2)))"

subsection \<open>Heading references\<close>

record heading =
  lineIndex :: nat
  key :: jstring
  level :: nat

text \<open>The body of \<open>lines.forEach((line, index) => ...)\<close> for one line.\<close>

definition section_of_line :: "(jstring \<Rightarrow> jstring) \<Rightarrow> jstring \<Rightarrow> nat \<Rightarrow> heading option" where
  "section_of_line big line index =
     (case h2Match line of
        Some g \<Rightarrow> Some \<lparr>lineIndex = index, key = g, level = 2\<rparr>
      | None \<Rightarrow>
          (case h3Match line of
             Some (g1, g2) \<Rightarrow>
               Some \<lparr>lineIndex = index,
                     key = parseInt_toString big g1 @ ascii ''.'' @ parseInt_toString big g2,
                     level = 3\<rparr>
           | None \<Rightarrow> None))"

fun collect_sections :: "(jstring \<Rightarrow> jstring) \<Rightarrow> nat \<Rightarrow> jstring list \<Rightarrow> heading list" where
  "collect_sections big index [] = []"
| "collect_sections big index (line # rest) =
     (case section_of_line big line index of
        Some s \<Rightarrow> s # collect_sections big (Suc index) rest
      | None \<Rightarrow> collect_sections big (Suc index) rest)"

subsection \<open>Bucketing the screenshots\<close>

text \<open>\<open>sections.find(s => s.key === k)\<close> used as a condition.\<close>

definition has_key :: "heading list \<Rightarrow> jstring \<Rightarrow> bool" where
  "has_key sections k \<longleftrightarrow> list_ex (\<lambda>s. key s = k) sections"

type_synonym buckets = "(jstring \<rightharpoonup> imagefile list) \<times> imagefile list"

text \<open>\<open>if (!m.has(k)) m.set(k, []); m.get(k)!.push(img)\<close>.\<close>

definition push_key :: "(jstring \<rightharpoonup> imagefile list) \<Rightarrow> jstring \<Rightarrow> imagefile \<Rightarrow> (jstring \<rightharpoonup> imagefile list)" where
  "push_key m k img = m(k \<mapsto> (case m k of None \<Rightarrow> [] | Some l \<Rightarrow> l) @ [img])"

text \<open>
  \<open>major\<close> and \<open>minor\<close> of a file name, \<open>None\<close> when the pattern does not match;
  \<open>minor\<close> is \<open>null\<close> (\<open>None\<close>) when \<open>match[2]\<close> is undefined.  A string is
  truthy when it is not empty.
\<close>

definition numeric_prefix :: "(jstring \<Rightarrow> jstring) \<Rightarrow> jstring \<Rightarrow> (jstring \<times> jstring option) option" where
  "numeric_prefix big nm =
     (case nameMatch nm of
        None \<Rightarrow> None
      | Some (g1, g2) \<Rightarrow>
          Some (parseInt_toString big g1,
                (case g2 of
                   Some g \<Rightarrow> if g \<noteq> [] then Some (parseInt_toString big g) else None
                 | None \<Rightarrow> None)))"

text \<open>\<open>const exactKey = minor ? `${major}.${minor}` : null\<close>.\<close>

definition exactKey :: "jstring \<Rightarrow> jstring option \<Rightarrow> jstring option" where
  "exactKey major minor =
     (case minor of
        Some m \<Rightarrow> if m \<noteq> [] then Some (major @ ascii ''.'' @ m) else None
      | None \<Rightarrow> None)"

text \<open>
  The body of \<open>sortedScreenshots.forEach((img) => ...)\<close>, on the pair of
  \<open>screenshotsByKey\<close> and \<open>unmatchedScreenshots\<close>.
\<close>

definition classify :: "(jstring \<Rightarrow> jstring) \<Rightarrow> heading list \<Rightarrow> buckets \<Rightarrow> imagefile \<Rightarrow> buckets" where
  "classify big sections st img =
     (case numeric_prefix big (name img) of
        Some (major, minor) \<Rightarrow>
          (case exactKey major minor of
             Some k \<Rightarrow>
               if k \<noteq> [] \<and> has_key sections k then (push_key (fst st) k img, snd st)
               else if has_key sections major then (push_key (fst st) major img, snd st)
               else (fst st, snd st @ [img])
           | None \<Rightarrow>
               if has_key sections major then (push_key (fst st) major img, snd st)
               else (fst st, snd st @ [img]))
      | None \<Rightarrow> (fst st, snd st @ [img]))"

subsection \<open>Splicing\<close>

text \<open>The template \<open>`\n![${img.name}](${img.name})\n`\<close>.\<close>

definition image_line :: "imagefile \<Rightarrow> jstring" where
  "image_line img =
     [0x0A] @ ascii ''!['' @ name img @ ascii '']('' @ name img @ ascii '')'' @ [0x0A]"

text \<open>
  \<open>for (let j = insertAt - 1; j > section.lineIndex; j--)\<close> with its \<open>break\<close>: the
  third argument is \<open>j + 1\<close>, the last one the \<open>insertAt\<close> kept when no rule is found.
  \<open>result[j]?.trim()\<close> is \<open>undefined\<close> past the end of the array.
\<close>

fun scan_back :: "jstring list \<Rightarrow> nat \<Rightarrow> nat \<Rightarrow> nat \<Rightarrow> nat" where
  "scan_back result lo 0 insertAt = insertAt"
| "scan_back result lo (Suc j) insertAt =
     (if j > lo then
        (if j < length result \<and> trim (result ! j) = ascii ''---'' then j
         else scan_back result lo j insertAt)
      else insertAt)"

text \<open>One round of the loop over the sections, for index \<open>i\<close>.\<close>

definition splice_section ::
  "(jstring \<rightharpoonup> imagefile list) \<Rightarrow> heading list \<Rightarrow> nat \<Rightarrow> jstring list \<Rightarrow> jstring list" where
  "splice_section byKey sections i result =
     (case byKey (key (sections ! i)) of
        None \<Rightarrow> result
      | Some matched \<Rightarrow>
          if matched = [] then result
          else
            (let insertAt =
                   (if i + 1 < length sections then
                      scan_back result (lineIndex (sections ! i))
                        (lineIndex (sections ! (i + 1))) (lineIndex (sections ! (i + 1)))
                    else length result)
             in take insertAt result @ map image_line matched @ drop insertAt result))"

text \<open>
  \<open>for (let i = sections.length - 1; i >= 0; i--)\<close>: the third argument is \<open>i + 1\<close>.
\<close>

fun splice_loop ::
  "(jstring \<rightharpoonup> imagefile list) \<Rightarrow> heading list \<Rightarrow> nat \<Rightarrow> jstring list \<Rightarrow> jstring list" where
  "splice_loop byKey sections 0 result = result"
| "splice_loop byKey sections (Suc i) result =
     splice_loop byKey sections i (splice_section byKey sections i result)"

text \<open>The two lines pushed before the unmatched screenshots.\<close>

definition rule_line :: jstring where
  "rule_line = [0x0A] @ ascii ''---'' @ [0x0A]"

definition reference_heading :: jstring where
  "reference_heading =
     ascii ''## '' @
     [0x53C2, 0x8003, 0x30B9, 0x30AF, 0x30EA, 0x30FC, 0x30F3, 0x30B7, 0x30E7, 0x30C3, 0x30C8] @
     [0x0A]"

definition append_unmatched :: "imagefile list \<Rightarrow> jstring list \<Rightarrow> jstring list" where
  "append_unmatched unmatchedScreenshots result =
     (if unmatchedScreenshots \<noteq> []
      then result @ [rule_line, reference_heading] @ map image_line unmatchedScreenshots
      else result)"

text \<open>
  The array \<open>result\<close> just before \<open>result.join('\n')\<close>, once the three early returns
  are passed.  \<open>srt\<close> is the sort by \<open>localeCompare(_, 'ja', {numeric: true})\<close>, whose
  collation order lies outside the program.
\<close>

definition linked_lines ::
  "(jstring \<Rightarrow> jstring) \<Rightarrow> (imagefile list \<Rightarrow> imagefile list) \<Rightarrow> jstring \<Rightarrow> imagefile list \<Rightarrow> jstring list" where
  "linked_lines big srt markdownContent screenshots =
     (let lines = split_on 0x0A markdownContent;
          sections = collect_sections big 0 lines;
          st = foldl (classify big sections) (Map.empty, []) (srt screenshots);
          result = splice_loop (fst st) sections (length sections) lines
      in append_unmatched (snd st) result)"

definition processedMarkdown ::
  "(jstring \<Rightarrow> jstring) \<Rightarrow> (imagefile list \<Rightarrow> imagefile list) \<Rightarrow> jstring \<Rightarrow> imagefile list \<Rightarrow> jstring" where
  "processedMarkdown big srt markdownContent screenshots =
     (if mdHasImageRefs markdownContent \<or> screenshots = [] \<or> markdownContent = []
      then markdownContent
      else if collect_sections big 0 (split_on 0x0A markdownContent) = []
      then markdownContent
      else join_with [0x0A] (linked_lines big srt markdownContent screenshots))"

section \<open>Paginator (\<open>generatePDF\<close>)\<close>

subsection \<open>The flattened node sequence\<close>

text \<open>
  A child of the preview element, with the three properties the code reads; a property
  that the node does not have (\<open>tagName\<close> and \<open>outerHTML\<close> of a text node) is
  \<open>None\<close>.
\<close>

record domnode =
  tagName :: "jstring option"
  outerHTML :: "jstring option"
  textContent :: "jstring option"

record pnode =
  tag :: jstring
  html :: jstring
  isImage :: bool

definition truthy :: "jstring option \<Rightarrow> bool" where
  "truthy v \<longleftrightarrow> (case v of None \<Rightarrow> False | Some s \<Rightarrow> s \<noteq> [])"

definition or_empty :: "jstring option \<Rightarrow> jstring" where
  "or_empty v = (case v of None \<Rightarrow> [] | Some s \<Rightarrow> s)"

text \<open>The body of \<open>Array.from(tempDiv.childNodes).forEach((node) => ...)\<close>.\<close>

definition collect_node :: "pnode list \<Rightarrow> domnode \<Rightarrow> pnode list" where
  "collect_node nodes el =
     (if tagName el = Some (ascii ''HR'') then nodes
      else if truthy (outerHTML el)
      then nodes @ [\<lparr>tag = or_empty (tagName el), html = or_empty (outerHTML el),
                     isImage = (tagName el = Some (ascii ''IMG''))\<rparr>]
      else if truthy (map_option trim (textContent el))
      then nodes @ [\<lparr>tag = [], html = or_empty (textContent el), isImage = False\<rparr>]
      else nodes)"

definition collect_nodes :: "domnode list \<Rightarrow> pnode list" where
  "collect_nodes children = foldl collect_node [] children"

subsection \<open>Height estimate\<close>

text \<open>\<open>html.replace(/<[^>]*>/g, '')\<close>: every \<open><\<close> up to the next \<open>>\<close> goes.\<close>

function strip_tags :: "jstring \<Rightarrow> jstring" where
  "strip_tags [] = []"
| "strip_tags (c # cs) =
     (if c = 0x3C \<and> 0x3E \<in> set cs then strip_tags (tl (dropWhile (\<lambda>d. d \<noteq> 0x3E) cs))
      else c # strip_tags cs)"
  by pat_completeness auto
termination
proof (relation "measure length")
  fix c :: jchar and cs :: jstring
  have "length (tl (dropWhile (\<lambda>d. d \<noteq> 0x3E) cs)) \<le> length cs"
    using length_dropWhile_le [of "\<lambda>d. d \<noteq> 0x3E" cs] by simp
  then show "(tl (dropWhile (\<lambda>d. d \<noteq> 0x3E) cs), c # cs) \<in> measure length"
    by simp
qed simp_all

text \<open>\<open>(html.match(/<li/g) || []).length\<close>.\<close>

fun count_li :: "jstring \<Rightarrow> nat" where
  "count_li [] = 0"
| "count_li (c # cs) =
     (if starts_with (ascii ''<li'') (c # cs) then Suc (count_li cs) else count_li cs)"

definition MAX_PAGE_HEIGHT :: nat where
  "MAX_PAGE_HEIGHT = 880"

text \<open>
  \<open>Math.ceil(textLen / 60)\<close> is \<open>(textLen + 59) div 60\<close>: the quotient of a string
  length by 60 is far from the next integer unless it is one.
\<close>

definition estimateHeight :: "pnode \<Rightarrow> nat" where
  "estimateHeight node =
     (if isImage node then 400
      else if tag node = ascii ''H1'' then 50
      else if tag node = ascii ''H2'' then 45
      else if tag node = ascii ''H3'' then 35
      else if tag node = ascii ''P''
      then (let textLen = length (strip_tags (html node))
            in max 25 (((textLen + 59) div 60) * 20))
      else if tag node = ascii ''UL'' \<or> tag node = ascii ''OL''
      then (let items = count_li (html node) in max 30 (items * 22))
      else 25)"

subsection \<open>Page splitting by heading and height (src/unnamed/part_001)\<close>

text \<open>
  \<open>/^<h[1-4][^>]*>[\s\S]*<\/h[1-4]>$/i.test(s)\<close>: \<open>[^>]*>\<close> ends at the first
  \<open>>\<close>, and what follows that has to end with a closing tag of a heading.
\<close>

definition is_h :: "jchar \<Rightarrow> bool" where
  "is_h c \<longleftrightarrow> c = 0x68 \<or> c = 0x48"

definition is_1to4 :: "jchar \<Rightarrow> bool" where
  "is_1to4 c \<longleftrightarrow> 0x31 \<le> c \<and> c \<le> 0x34"

definition closing_heading :: "jstring \<Rightarrow> bool" where
  "closing_heading e \<longleftrightarrow>
     (case e of
        [a, b, c, d, f] \<Rightarrow> a = 0x3C \<and> b = 0x2F \<and> is_h c \<and> is_1to4 d \<and> f = 0x3E
      | _ \<Rightarrow> False)"

definition isOnlyHeading :: "jstring \<Rightarrow> bool" where
  "isOnlyHeading s \<longleftrightarrow>
     (case s of
        a # b # c # rest \<Rightarrow>
          a = 0x3C \<and> is_h b \<and> is_1to4 c \<and> 0x3E \<in> set rest \<and>
          (let body = tl (dropWhile (\<lambda>d. d \<noteq> 0x3E) rest)
           in 5 \<le> length body \<and> closing_heading (drop (length body - 5) body))
      | _ \<Rightarrow> False)"

record pstate =
  sections :: "jstring list"
  currentSection :: jstring
  currentHeight :: nat

text \<open>The body of \<open>nodes.forEach((node, idx) => ...)\<close>.\<close>

definition page_step :: "pstate \<Rightarrow> pnode \<Rightarrow> pstate" where
  "page_step st node =
     (let nodeHeight = estimateHeight node in
      if tag node = ascii ''H2'' \<and> trim (currentSection st) \<noteq> []
      then \<lparr>sections = sections st @ [currentSection st],
            currentSection = html node,
            currentHeight = nodeHeight\<rparr>
      else
        (let st1 =
               (if currentHeight st + nodeHeight > MAX_PAGE_HEIGHT \<and> trim (currentSection st) \<noteq> []
                   \<and> \<not> isOnlyHeading (trim (currentSection st))
                then \<lparr>sections = sections st @ [currentSection st],
                      currentSection = [], currentHeight = 0\<rparr>
                else st)
         in \<lparr>sections = sections st1,
              currentSection = currentSection st1 @ html node,
              currentHeight = currentHeight st1 + nodeHeight\<rparr>))"

definition page_init :: pstate where
  "page_init = \<lparr>sections = [], currentSection = [], currentHeight = 0\<rparr>"

text \<open>The last push, \<open>if (currentSection.trim()) sections.push(currentSection)\<close>.\<close>

definition page_finish :: "pstate \<Rightarrow> jstring list" where
  "page_finish st =
     (if trim (currentSection st) \<noteq> [] then sections st @ [currentSection st]
      else sections st)"

definition paginate :: "pnode list \<Rightarrow> jstring list" where
  "paginate nodes = page_finish (foldl page_step page_init nodes)"

subsection \<open>Page splitting by second-level heading only (src/app/page.tsx)\<close>

text \<open>The state is \<open>sections\<close> and \<open>currentSection\<close>; \<open>sectionCount\<close> is never read.\<close>

definition simple_step :: "jstring list \<times> jstring \<Rightarrow> domnode \<Rightarrow> jstring list \<times> jstring" where
  "simple_step st el =
     (if tagName el = Some (ascii ''H2'')
      then ((if trim (snd st) \<noteq> [] then fst st @ [snd st] else fst st),
            or_empty (outerHTML el))
      else if tagName el = Some (ascii ''HR'') then st
      else if truthy (outerHTML el) then (fst st, snd st @ or_empty (outerHTML el))
      else if truthy (map_option trim (textContent el))
      then (fst st, snd st @ or_empty (textContent el))
      else st)"

definition paginate_simple :: "domnode list \<Rightarrow> jstring list" where
  "paginate_simple children =
     (let st = foldl simple_step ([], []) children
      in if trim (snd st) \<noteq> [] then fst st @ [snd st] else fst st)"

section \<open>Notions of the specification\<close>

text \<open>
  The bucket the specification gives an asset: the exact key \<open>major.minor\<close> when the
  pair exists and is a recorded heading key; otherwise the bare major when that is a
  recorded key; otherwise none (the asset is unmatched), as for a file name without a
  numeric prefix.
\<close>

definition bucket_of :: "(jstring \<Rightarrow> jstring) \<Rightarrow> heading list \<Rightarrow> imagefile \<Rightarrow> jstring option" where
  "bucket_of big secs img =
     (case numeric_prefix big (name img) of
        None \<Rightarrow> None
      | Some (major, minor) \<Rightarrow>
          (if exactKey major minor \<noteq> None \<and> the (exactKey major minor) \<in> key ` set secs
           then exactKey major minor
           else if major \<in> key ` set secs then Some major
           else None))"


text \<open>A separator-only line: \<open>---\<close> once trimmed.\<close>

definition is_rule :: "jstring \<Rightarrow> bool" where
  "is_rule line \<longleftrightarrow> trim line = ascii ''---''"

text \<open>
  Where the specification puts the images of a heading, as an index into the original
  lines: the end of the document for the last heading; otherwise the line of the next
  heading, or the last separator-only line between the two headings when there is one.
\<close>

definition insertion_point :: "jstring list \<Rightarrow> heading \<Rightarrow> heading list \<Rightarrow> nat" where
  "insertion_point lines s rest =
     (case rest of
        [] \<Rightarrow> length lines
      | t # _ \<Rightarrow>
          (case filter (\<lambda>j. is_rule (lines ! j)) (rev [Suc (lineIndex s)..<lineIndex t]) of
             [] \<Rightarrow> lineIndex t
           | j # _ \<Rightarrow> j))"

text \<open>
  The original lines from \<open>pos\<close> on, with the block of every heading put in at its
  insertion point, the headings taken in document order.
\<close>

fun weave :: "(heading \<Rightarrow> jstring list) \<Rightarrow> jstring list \<Rightarrow> nat \<Rightarrow> heading list \<Rightarrow> jstring list" where
  "weave block lines pos [] = drop pos lines"
| "weave block lines pos (s # rest) =
     take (insertion_point lines s rest - pos) (drop pos lines) @ block s
       @ weave block lines (insertion_point lines s rest) rest"

text \<open>Heading references in document order, each on a line of the document.\<close>

definition ordered :: "jstring list \<Rightarrow> heading list \<Rightarrow> bool" where
  "ordered lines secs \<longleftrightarrow>
     sorted_wrt (\<lambda>a b. lineIndex a < lineIndex b) secs \<and> list_all (\<lambda>s. lineIndex s < length lines) secs"

text \<open>The image lines of the bucket kept under the key of a heading.\<close>

definition bucket_lines :: "(jstring \<rightharpoonup> imagefile list) \<Rightarrow> heading \<Rightarrow> jstring list" where
  "bucket_lines byKey s = (case byKey (key s) of None \<Rightarrow> [] | Some matched \<Rightarrow> map image_line matched)"

text \<open>
  The markup of a single heading element of level 1 to 4: an opening tag \<open><hN ...>\<close>,
  and after its \<open>>\<close> a text that ends with the closing tag \<open></hN>\<close> of the same
  level.
\<close>

definition heading_element :: "jstring \<Rightarrow> bool" where
  "heading_element s \<longleftrightarrow>
     (case s of
        a # b # c # rest \<Rightarrow>
          a = 0x3C \<and> is_h b \<and> is_1to4 c \<and> 0x3E \<in> set rest \<and>
          (let body = tl (dropWhile (\<lambda>d. d \<noteq> 0x3E) rest)
           in 5 \<le> length body \<and>
              (case drop (length body - 5) body of
                 [p, q, r, d, t] \<Rightarrow> p = 0x3C \<and> q = 0x2F \<and> is_h r \<and> d = c \<and> t = 0x3E
               | _ \<Rightarrow> False))
      | _ \<Rightarrow> False)"

text \<open>A text that begins with \<open><h1\<close> to \<open><h4\<close>, and one that ends with \<open></h1>\<close> to \<open></h4>\<close>.\<close>

definition opening_heading :: "jstring \<Rightarrow> bool" where
  "opening_heading s \<longleftrightarrow>
     (case s of a # b # c # _ \<Rightarrow> a = 0x3C \<and> is_h b \<and> is_1to4 c | _ \<Rightarrow> False)"

definition ends_closing_heading :: "jstring \<Rightarrow> bool" where
  "ends_closing_heading s \<longleftrightarrow> 5 \<le> length s \<and> closing_heading (drop (length s - 5) s)"

text \<open>
  What the document object model gives for a child node: an element has a tag name and a
  serialisation that is not blank (it starts with \<open><\<close>); any other node has neither.
\<close>

definition wf_child :: "domnode \<Rightarrow> bool" where
  "wf_child el \<longleftrightarrow>
     (case tagName el of
        Some t \<Rightarrow> (case outerHTML el of Some h \<Rightarrow> trim h \<noteq> [] | None \<Rightarrow> False)
      | None \<Rightarrow> outerHTML el = None)"

text \<open>
  Two consecutive pages: when the first is a single heading element, the second begins
  with the markup of a second-level heading of the node sequence.
\<close>

definition h2_break :: "pnode list \<Rightarrow> jstring \<Rightarrow> jstring \<Rightarrow> bool" where
  "h2_break ns p q \<longleftrightarrow>
     (\<not> heading_element p \<or> list_ex (\<lambda>n. tag n = ascii ''H2'' \<and> starts_with (html n) q) ns)"

section \<open>Properties of the reference resolver and the renderer adapter\<close>

lemma split_on_not_Nil: "split_on c xs \<noteq> []"
  by (induction xs) (auto split: list.splits)

lemma split_on_no_sep: "c \<notin> set xs \<Longrightarrow> split_on c xs = [xs]"
  by (induction xs) auto

lemma split_on_two: "c \<in> set xs \<Longrightarrow> \<exists>l ls. split_on c xs = l # ls \<and> ls \<noteq> []"
proof (induction xs)
  case Nil
  then show ?case by simp
next
  case (Cons x xs)
  show ?case
  proof (cases "x = c")
    case True
    then show ?thesis by (simp add: split_on_not_Nil)
  next
    case False
    with Cons.prems have "c \<in> set xs" by simp
    from Cons.IH [OF this] obtain l ls where "split_on c xs = l # ls" and "ls \<noteq> []"
      by blast
    with False show ?thesis by simp
  qed
qed

lemma last_split_on_Cons:
  "last (split_on c (x # xs)) = (if c \<in> set xs \<or> x = c then last (split_on c xs) else x # xs)"
proof (cases "x = c")
  case True
  then show ?thesis by (simp add: split_on_not_Nil)
next
  case False
  show ?thesis
  proof (cases "c \<in> set xs")
    case True
    from split_on_two [OF this] obtain l ls where "split_on c xs = l # ls" and "ls \<noteq> []"
      by blast
    with False True show ?thesis by simp
  next
    case no: False
    with False show ?thesis by (simp add: split_on_no_sep)
  qed
qed

lemma basename_strip: "0x2F \<notin> set base \<Longrightarrow> basename (dir @ 0x2F # base) = base"
proof (induction dir)
  case Nil
  then show ?case
    by (simp add: basename_def split_on_not_Nil split_on_no_sep)
next
  case (Cons d dir)
  have "last (split_on 0x2F (d # dir @ 0x2F # base)) = last (split_on 0x2F (dir @ 0x2F # base))"
    by (subst last_split_on_Cons) simp
  with Cons show ?case by (simp add: basename_def)
qed

lemma basename_plain: "0x2F \<notin> set base \<Longrightarrow> basename base = base"
  by (simp add: basename_def split_on_no_sep)

lemma imageMap_snoc: "imageMap (images @ [img]) = (imageMap images)(name img \<mapsto> dataUrl img)"
  by (simp add: imageMap_def)

lemma imageMap_Some:
  "imageMap images k = Some u \<Longrightarrow> \<exists>A\<in>set images. name A = k \<and> dataUrl A = u"
proof (induction images rule: rev_induct)
  case Nil
  then show ?case by (simp add: imageMap_def)
next
  case (snoc img images)
  then show ?case by (auto simp: imageMap_snoc split: if_splits)
qed

lemma imageMap_filter: "imageMap (filter (\<lambda>A. name A = k) images) k = imageMap images k"
proof (induction images rule: rev_induct)
  case Nil
  then show ?case by simp
next
  case (snoc img images)
  then show ?case by (simp add: imageMap_snoc)
qed


lemma imageMap_last:
  "imageMap images k =
     (if filter (\<lambda>A. name A = k) images = [] then None
      else Some (dataUrl (last (filter (\<lambda>A. name A = k) images))))"
proof (induction images rule: rev_induct)
  case Nil
  then show ?case by (simp add: imageMap_def)
next
  case (snoc img images)
  then show ?case by (simp add: imageMap_snoc)
qed

text \<open>
  C8.  The resolver strips everything up to and including the last slash and looks the
  rest up by its exact name: a directory prefix does not change the result; the result
  is the content of the last uploaded asset of exactly that name (none when there is no
  such asset); whatever is returned is the content stored under an asset of that name;
  and the assets of any other name can be taken away without changing the result, so
  that a reference to A never yields the content of a differently named B.  Both
  variants of the lookup are functions of the asset list and the reference alone.
\<close>

theorem resolver_by_basename:
  "(0x2F \<notin> set base \<longrightarrow>
      basename (dir @ 0x2F # base) = base \<and> basename base = base
      \<and> resolveImageSrc images (dir @ 0x2F # base) = resolveImageSrc images base
      \<and> resolveInline images (dir @ 0x2F # base) = resolveInline images base)
   \<and> resolveImageSrc images src =
        (if basename src = [] \<or> filter (\<lambda>A. name A = basename src) images = []
            \<or> dataUrl (last (filter (\<lambda>A. name A = basename src) images)) = []
         then None
         else Some (dataUrl (last (filter (\<lambda>A. name A = basename src) images))))
   \<and> resolveInline images src =
        (if filter (\<lambda>A. name A = basename src) images = []
            \<or> dataUrl (last (filter (\<lambda>A. name A = basename src) images)) = []
         then None
         else Some (dataUrl (last (filter (\<lambda>A. name A = basename src) images))))
   \<and> (\<forall>c. resolveImageSrc images src = Some c \<or> resolveInline images src = Some c \<longrightarrow>
          (\<exists>A\<in>set images. name A = basename src \<and> dataUrl A = c))
   \<and> resolveImageSrc (filter (\<lambda>A. name A = basename src) images) src = resolveImageSrc images src
   \<and> resolveInline (filter (\<lambda>A. name A = basename src) images) src = resolveInline images src"
proof -
  have prefix: "0x2F \<notin> set base \<longrightarrow>
      basename (dir @ 0x2F # base) = base \<and> basename base = base
      \<and> resolveImageSrc images (dir @ 0x2F # base) = resolveImageSrc images base
      \<and> resolveInline images (dir @ 0x2F # base) = resolveInline images base"
    by (simp add: resolveImageSrc_def resolveInline_def basename_strip basename_plain)
  have last1: "resolveImageSrc images src =
        (if basename src = [] \<or> filter (\<lambda>A. name A = basename src) images = []
            \<or> dataUrl (last (filter (\<lambda>A. name A = basename src) images)) = []
         then None
         else Some (dataUrl (last (filter (\<lambda>A. name A = basename src) images))))"
    by (simp add: resolveImageSrc_def Let_def imageMap_last)
  have last2: "resolveInline images src =
        (if filter (\<lambda>A. name A = basename src) images = []
            \<or> dataUrl (last (filter (\<lambda>A. name A = basename src) images)) = []
         then None
         else Some (dataUrl (last (filter (\<lambda>A. name A = basename src) images))))"
    by (simp add: resolveInline_def imageMap_last)
  have owner: "\<forall>c. resolveImageSrc images src = Some c \<or> resolveInline images src = Some c \<longrightarrow>
          (\<exists>A\<in>set images. name A = basename src \<and> dataUrl A = c)"
    by (auto simp: resolveImageSrc_def resolveInline_def Let_def
        split: if_splits option.splits dest: imageMap_Some)
  have others1: "resolveImageSrc (filter (\<lambda>A. name A = basename src) images) src = resolveImageSrc images src"
    by (simp add: resolveImageSrc_def Let_def imageMap_filter)
  have others2: "resolveInline (filter (\<lambda>A. name A = basename src) images) src = resolveInline images src"
    by (simp add: resolveInline_def imageMap_filter)
  show ?thesis
    by (intro conjI prefix last1 last2 owner others1 others2)
qed

theorem resolver_by_basename_witness:
  "0x2F \<notin> set (ascii ''shot.png'')
   \<and> basename (ascii ''images'' @ 0x2F # ascii ''shot.png'') = ascii ''shot.png''
   \<and> resolveImageSrc [\<lparr>name = ascii ''shot.png'', dataUrl = ascii ''data:1''\<rparr>,
                       \<lparr>name = ascii ''other.png'', dataUrl = ascii ''data:2''\<rparr>]
        (ascii ''images'' @ 0x2F # ascii ''shot.png'') = Some (ascii ''data:1'')
   \<and> resolveInline [\<lparr>name = ascii ''shot.png'', dataUrl = ascii ''data:1''\<rparr>,
                     \<lparr>name = ascii ''other.png'', dataUrl = ascii ''data:2''\<rparr>]
        (ascii ''images'' @ 0x2F # ascii ''shot.png'') = Some (ascii ''data:1'')"
proof -
  let ?imgs = "[\<lparr>name = ascii ''shot.png'', dataUrl = ascii ''data:1''\<rparr>,
                \<lparr>name = ascii ''other.png'', dataUrl = ascii ''data:2''\<rparr>]"
  have h: "0x2F \<notin> set (ascii ''shot.png'')"
    by (simp add: ascii_def)
  have r1: "resolveImageSrc ?imgs (ascii ''shot.png'') = Some (ascii ''data:1'')"
    by (simp add: resolveImageSrc_def imageMap_def basename_def ascii_def)
  have r2: "resolveInline ?imgs (ascii ''shot.png'') = Some (ascii ''data:1'')"
    by (simp add: resolveInline_def imageMap_def basename_def ascii_def)
  from resolver_by_basename [of "ascii ''shot.png''" "ascii ''images''" ?imgs "[]"] h r1 r2
  show ?thesis by simp
qed




section \<open>Properties of the Auto-Linker\<close>

subsection \<open>What the pattern matchers accept\<close>

text \<open>
  The matchers above are written as deterministic scans.  Each accepts exactly what its
  regular expression accepts, and yields the groups the expression captures: the image
  reference test first, then the two heading patterns and the numeric group of the file
  name pattern.
\<close>

lemma starts_with_iff: "starts_with p s \<longleftrightarrow> (\<exists>r. s = p @ r)"
proof
  assume "starts_with p s"
  then have "s = p @ drop (length p) s"
    by (metis append_take_drop_id starts_with_def)
  then show "\<exists>r. s = p @ r" ..
next
  assume "\<exists>r. s = p @ r"
  then show "starts_with p s" by (auto simp: starts_with_def)
qed





lemma not_digit_dot: "\<not> is_digit 0x2E" and not_digit_dash: "\<not> is_digit 0x2D"
  and not_digit_underscore: "\<not> is_digit 0x5F"
  by (simp_all add: is_digit_def)

lemma not_digit_sep: "is_sep c \<Longrightarrow> \<not> is_digit c"
  by (auto simp: is_sep_def is_digit_def)

lemma digit_run:
  assumes "\<forall>c\<in>set ds. is_digit c" and "\<not> is_digit x"
  shows "takeWhile is_digit (ds @ x # rest) = ds" and "dropWhile is_digit (ds @ x # rest) = x # rest"
  using assms by (simp_all add: takeWhile_tail dropWhile_append3)

lemma digit_run_end:
  assumes "\<forall>c\<in>set ds. is_digit c" and "rest = [] \<or> \<not> is_digit (hd rest)"
  shows "takeWhile is_digit (ds @ rest) = ds"
proof (cases rest)
  case Nil
  with assms show ?thesis by simp
next
  case (Cons x xs)
  with assms digit_run(1) [of ds x xs] show ?thesis by simp
qed

lemma h2Match_iff:
  "h2Match line = Some ds \<longleftrightarrow>
     (\<exists>w rest. line = ascii ''## '' @ ds @ [0x2E, w] @ rest
        \<and> ds \<noteq> [] \<and> (\<forall>c\<in>set ds. is_digit c) \<and> is_ws w)"
proof
  assume m: "h2Match line = Some ds"
  let ?r = "drop 3 line"
  have len: "length (ascii ''## '') = 3" by (simp add: ascii_def)
  from m have sw: "starts_with (ascii ''## '') line"
    by (simp add: h2Match_def split: if_splits)
  then have line: "line = ascii ''## '' @ ?r"
    using len by (metis append_take_drop_id starts_with_def)
  from m sw have ds: "ds = takeWhile is_digit ?r" and ne: "ds \<noteq> []"
    by (auto simp: h2Match_def Let_def split: if_splits)
  from m sw obtain w rest where after: "dropWhile is_digit ?r = 0x2E # w # rest" and w: "is_ws w"
    by (auto simp: h2Match_def Let_def split: if_splits list.splits)
  have "?r = ds @ 0x2E # w # rest"
    using takeWhile_dropWhile_id [of is_digit ?r] ds after by simp
  with line have "line = ascii ''## '' @ ds @ [0x2E, w] @ rest"
    by simp
  moreover have "\<forall>c\<in>set ds. is_digit c"
    unfolding ds by (auto dest: set_takeWhileD)
  ultimately show "\<exists>w rest. line = ascii ''## '' @ ds @ [0x2E, w] @ rest
        \<and> ds \<noteq> [] \<and> (\<forall>c\<in>set ds. is_digit c) \<and> is_ws w"
    using ne w by blast
next
  assume "\<exists>w rest. line = ascii ''## '' @ ds @ [0x2E, w] @ rest
        \<and> ds \<noteq> [] \<and> (\<forall>c\<in>set ds. is_digit c) \<and> is_ws w"
  then obtain w rest where line: "line = ascii ''## '' @ ds @ [0x2E, w] @ rest"
    and ne: "ds \<noteq> []" and dg: "\<forall>c\<in>set ds. is_digit c" and w: "is_ws w"
    by blast
  have len: "length (ascii ''## '') = 3" by (simp add: ascii_def)
  have sw: "starts_with (ascii ''## '') line"
    unfolding line by (auto simp: starts_with_iff)
  have r: "drop 3 line = ds @ 0x2E # w # rest"
    unfolding line using len by simp
  show "h2Match line = Some ds"
    using sw ne w digit_run [OF dg not_digit_dot, of "w # rest"]
    by (simp add: h2Match_def r)
qed

lemma h3Match_iff:
  "h3Match line = Some (d1, d2) \<longleftrightarrow>
     (\<exists>sep rest. line = ascii ''### '' @ d1 @ [sep] @ d2 @ rest
        \<and> d1 \<noteq> [] \<and> (\<forall>c\<in>set d1. is_digit c) \<and> (sep = 0x2D \<or> sep = 0x2E)
        \<and> d2 \<noteq> [] \<and> (\<forall>c\<in>set d2. is_digit c) \<and> (rest = [] \<or> \<not> is_digit (hd rest)))"
proof
  assume m: "h3Match line = Some (d1, d2)"
  let ?r = "drop 4 line"
  have len: "length (ascii ''### '') = 4" by (simp add: ascii_def)
  from m have sw: "starts_with (ascii ''### '') line"
    by (simp add: h3Match_def split: if_splits)
  then have line: "line = ascii ''### '' @ ?r"
    using len by (metis append_take_drop_id starts_with_def)
  from m sw obtain sep r2 where after: "dropWhile is_digit ?r = sep # r2"
    and d1: "d1 = takeWhile is_digit ?r" and d2: "d2 = takeWhile is_digit r2"
    and ne: "d1 \<noteq> []" "d2 \<noteq> []" and sep: "sep = 0x2D \<or> sep = 0x2E"
    by (auto simp: h3Match_def Let_def split: if_splits list.splits)
  have "?r = d1 @ sep # r2"
    using takeWhile_dropWhile_id [of is_digit ?r] d1 after by simp
  moreover have "r2 = d2 @ dropWhile is_digit r2"
    using d2 by simp
  ultimately have "line = ascii ''### '' @ d1 @ [sep] @ d2 @ dropWhile is_digit r2"
    using line by simp
  moreover have "\<forall>c\<in>set d1. is_digit c" "\<forall>c\<in>set d2. is_digit c"
    unfolding d1 d2 by (auto dest: set_takeWhileD)
  moreover have "dropWhile is_digit r2 = [] \<or> \<not> is_digit (hd (dropWhile is_digit r2))"
    using hd_dropWhile [of is_digit r2] by blast
  ultimately show "\<exists>sep rest. line = ascii ''### '' @ d1 @ [sep] @ d2 @ rest
        \<and> d1 \<noteq> [] \<and> (\<forall>c\<in>set d1. is_digit c) \<and> (sep = 0x2D \<or> sep = 0x2E)
        \<and> d2 \<noteq> [] \<and> (\<forall>c\<in>set d2. is_digit c) \<and> (rest = [] \<or> \<not> is_digit (hd rest))"
    using ne sep by blast
next
  assume "\<exists>sep rest. line = ascii ''### '' @ d1 @ [sep] @ d2 @ rest
        \<and> d1 \<noteq> [] \<and> (\<forall>c\<in>set d1. is_digit c) \<and> (sep = 0x2D \<or> sep = 0x2E)
        \<and> d2 \<noteq> [] \<and> (\<forall>c\<in>set d2. is_digit c) \<and> (rest = [] \<or> \<not> is_digit (hd rest))"
  then obtain sep rest where line: "line = ascii ''### '' @ d1 @ [sep] @ d2 @ rest"
    and ne: "d1 \<noteq> []" "d2 \<noteq> []" and dg1: "\<forall>c\<in>set d1. is_digit c" and dg2: "\<forall>c\<in>set d2. is_digit c"
    and sep: "sep = 0x2D \<or> sep = 0x2E" and rest: "rest = [] \<or> \<not> is_digit (hd rest)"
    by blast
  have len: "length (ascii ''### '') = 4" by (simp add: ascii_def)
  have sw: "starts_with (ascii ''### '') line"
    unfolding line by (auto simp: starts_with_iff)
  have r: "drop 4 line = d1 @ sep # d2 @ rest"
    unfolding line using len by simp
  from sep have ns: "\<not> is_digit sep"
    by (auto simp: is_digit_def)
  show "h3Match line = Some (d1, d2)"
    using sw ne sep digit_run [OF dg1 ns, of "d2 @ rest"] digit_run_end [OF dg2 rest]
    by (simp add: h3Match_def r)
qed

lemma num_group_iff:
  "num_group s = Some (g, rest) \<longleftrightarrow>
     (\<exists>ds sep. s = ds @ [sep] @ rest \<and> ds \<noteq> [] \<and> (\<forall>c\<in>set ds. is_digit c) \<and> is_sep sep
        \<and> g = (if dropWhile (\<lambda>c. c = 0x30) ds = [] then [0x30] else dropWhile (\<lambda>c. c = 0x30) ds))"
proof
  assume m: "num_group s = Some (g, rest)"
  then obtain sep where after: "dropWhile is_digit s = sep # rest"
    and ne: "takeWhile is_digit s \<noteq> []" and sep: "is_sep sep"
    and g: "g = (if dropWhile (\<lambda>c. c = 0x30) (takeWhile is_digit s) = [] then [0x30]
                else dropWhile (\<lambda>c. c = 0x30) (takeWhile is_digit s))"
    by (auto simp: num_group_def Let_def split: list.splits if_splits)
  have "s = takeWhile is_digit s @ [sep] @ rest"
    using takeWhile_dropWhile_id [of is_digit s] after by simp
  moreover have "\<forall>c\<in>set (takeWhile is_digit s). is_digit c"
    by (auto dest: set_takeWhileD)
  ultimately show "\<exists>ds sep. s = ds @ [sep] @ rest \<and> ds \<noteq> [] \<and> (\<forall>c\<in>set ds. is_digit c) \<and> is_sep sep
        \<and> g = (if dropWhile (\<lambda>c. c = 0x30) ds = [] then [0x30] else dropWhile (\<lambda>c. c = 0x30) ds)"
    using ne sep g by blast
next
  assume "\<exists>ds sep. s = ds @ [sep] @ rest \<and> ds \<noteq> [] \<and> (\<forall>c\<in>set ds. is_digit c) \<and> is_sep sep
        \<and> g = (if dropWhile (\<lambda>c. c = 0x30) ds = [] then [0x30] else dropWhile (\<lambda>c. c = 0x30) ds)"
  then obtain ds sep where s: "s = ds @ sep # rest" and ne: "ds \<noteq> []"
    and dg: "\<forall>c\<in>set ds. is_digit c" and sep: "is_sep sep"
    and g: "g = (if dropWhile (\<lambda>c. c = 0x30) ds = [] then [0x30] else dropWhile (\<lambda>c. c = 0x30) ds)"
    by auto
  show "num_group s = Some (g, rest)"
    using ne sep g digit_run [OF dg not_digit_sep [OF sep], of rest]
    by (simp add: num_group_def s Let_def)
qed

subsection \<open>Identity cases\<close>

lemma collect_sections_Nil:
  "\<forall>line\<in>set ls. h2Match line = None \<and> h3Match line = None \<Longrightarrow> collect_sections big i ls = []"
  by (induction ls arbitrary: i) (auto simp: section_of_line_def)





text \<open>
  C10.  When no line of the Markdown is a numbered heading (\<open>## N.\<close> followed by white
  space, or \<open>### N-M\<close>, \<open>### N.M\<close>), the Auto-Linker returns the Markdown as it is,
  whatever is uploaded: nothing is appended for the screenshots.
\<close>

theorem no_numbered_heading_identity:
  "\<forall>line\<in>set (split_on 0x0A md). h2Match line = None \<and> h3Match line = None \<Longrightarrow>
   processedMarkdown big srt md shots = md"
  by (simp add: processedMarkdown_def collect_sections_Nil)

theorem no_numbered_heading_identity_witness:
  "split_on 0x0A (ascii ''# Manual\<newline>text'') = [ascii ''# Manual'', ascii ''text'']
   \<and> h2Match (ascii ''# Manual'') = None \<and> h3Match (ascii ''# Manual'') = None
   \<and> h2Match (ascii ''text'') = None \<and> h3Match (ascii ''text'') = None
   \<and> \<not> mdHasImageRefs (ascii ''# Manual\<newline>text'')
   \<and> processedMarkdown id id (ascii ''# Manual\<newline>text'') [\<lparr>name = ascii ''03_extra.png'', dataUrl = []\<rparr>]
       = ascii ''# Manual\<newline>text''"
proof -
  have s: "split_on 0x0A (ascii ''# Manual\<newline>text'') = [ascii ''# Manual'', ascii ''text'']"
    by (simp add: ascii_def)
  have m: "h2Match (ascii ''# Manual'') = None \<and> h3Match (ascii ''# Manual'') = None
      \<and> h2Match (ascii ''text'') = None \<and> h3Match (ascii ''text'') = None"
    by (simp add: ascii_def h2Match_def h3Match_def starts_with_def)
  have h: "\<forall>line\<in>set (split_on 0x0A (ascii ''# Manual\<newline>text'')). h2Match line = None \<and> h3Match line = None"
    unfolding s using m by simp
  have n: "\<not> mdHasImageRefs (ascii ''# Manual\<newline>text'')"
    by (simp add: ascii_def starts_with_def)
  from no_numbered_heading_identity [OF h, of id id "[\<lparr>name = ascii ''03_extra.png'', dataUrl = []\<rparr>]"] s m n
  show ?thesis by simp
qed

subsection \<open>The loop from the last heading to the first yields the woven lines\<close>

lemma section_of_line_index: "section_of_line big l i = Some s \<Longrightarrow> lineIndex s = i"
  by (auto simp: section_of_line_def split: option.splits)

lemma collect_sections_index:
  "s \<in> set (collect_sections big i ls) \<Longrightarrow> i \<le> lineIndex s \<and> lineIndex s < i + length ls"
proof (induction ls arbitrary: i)
  case Nil
  then show ?case by simp
next
  case (Cons l ls)
  show ?case
  proof (cases "section_of_line big l i")
    case None
    with Cons.prems have "s \<in> set (collect_sections big (Suc i) ls)" by simp
    from Cons.IH [OF this] show ?thesis by simp
  next
    case (Some t)
    with Cons.prems have "s = t \<or> s \<in> set (collect_sections big (Suc i) ls)" by auto
    then show ?thesis
    proof
      assume "s = t"
      with Some show ?thesis by (simp add: section_of_line_index)
    next
      assume "s \<in> set (collect_sections big (Suc i) ls)"
      from Cons.IH [OF this] show ?thesis by simp
    qed
  qed
qed

lemma collect_sections_sorted:
  "sorted_wrt (\<lambda>a b. lineIndex a < lineIndex b) (collect_sections big i ls)"
proof (induction ls arbitrary: i)
  case Nil
  then show ?case by simp
next
  case (Cons l ls)
  show ?case
  proof (cases "section_of_line big l i")
    case None
    then show ?thesis by (simp add: Cons.IH)
  next
    case (Some t)
    have "\<forall>s\<in>set (collect_sections big (Suc i) ls). lineIndex t < lineIndex s"
      using collect_sections_index [of _ big "Suc i" ls] section_of_line_index [OF Some]
      by (metis Suc_le_lessD)
    with Some show ?thesis by (simp add: Cons.IH)
  qed
qed

lemma collect_sections_ordered: "ordered ls (collect_sections big 0 ls)"
  using collect_sections_index [of _ big 0 ls]
  by (auto simp: ordered_def collect_sections_sorted list_all_iff)

lemma scan_back_filter:
  "h \<le> length R \<Longrightarrow>
   scan_back R lo h d = (case filter (\<lambda>j. is_rule (R ! j)) (rev [Suc lo..<h]) of [] \<Rightarrow> d | j # _ \<Rightarrow> j)"
proof (induction h)
  case 0
  then show ?case by simp
next
  case (Suc h)
  then show ?case by (auto simp: is_rule_def)
qed

lemma insertion_point_bounds:
  assumes "lineIndex s < lineIndex t"
  shows "lineIndex s < insertion_point L s (t # rest) \<and> insertion_point L s (t # rest) \<le> lineIndex t"
proof (cases "filter (\<lambda>j. is_rule (L ! j)) (rev [Suc (lineIndex s)..<lineIndex t])")
  case Nil
  with assms show ?thesis by (simp add: insertion_point_def)
next
  case (Cons j js)
  then have "j \<in> set (filter (\<lambda>j. is_rule (L ! j)) (rev [Suc (lineIndex s)..<lineIndex t]))"
    by simp
  then have "Suc (lineIndex s) \<le> j \<and> j < lineIndex t" by simp
  with Cons show ?thesis by (simp add: insertion_point_def)
qed


lemma weave_shift:
  assumes "pos \<le> q" and "case secs of [] \<Rightarrow> True | s # rest \<Rightarrow> q \<le> insertion_point L s rest"
  shows "weave blk L pos secs = take (q - pos) (drop pos L) @ weave blk L q secs"
proof (cases secs)
  case Nil
  have "drop pos L = take (q - pos) (drop pos L) @ drop (q - pos) (drop pos L)"
    by (simp only: append_take_drop_id)
  also have "drop (q - pos) (drop pos L) = drop q L"
    using assms(1) by simp
  finally show ?thesis
    unfolding Nil weave.simps .
next
  case (Cons s rest)
  let ?p = "insertion_point L s rest"
  from assms Cons have qp: "q \<le> ?p" by simp
  have "take (?p - pos) (drop pos L) = take ((q - pos) + (?p - q)) (drop pos L)"
    using assms(1) qp by simp
  also have "\<dots> = take (q - pos) (drop pos L) @ take (?p - q) (drop (q - pos) (drop pos L))"
    by (rule take_add)
  also have "drop (q - pos) (drop pos L) = drop q L"
    using assms(1) by simp
  finally show ?thesis
    using Cons by simp
qed

lemma ordered_Cons:
  "ordered L (s # rest) \<Longrightarrow> ordered L rest \<and> lineIndex s < length L"
  by (simp add: ordered_def)


lemma ordered_drop: "ordered L secs \<Longrightarrow> ordered L (drop i secs)"
  by (auto simp: ordered_def sorted_wrt_drop list_all_iff dest: in_set_dropD)

lemma insertion_point_after:
  "ordered L (s # rest) \<Longrightarrow> lineIndex s < insertion_point L s rest \<and> insertion_point L s rest \<le> length L"
proof (cases rest)
  case Nil
  assume "ordered L (s # rest)"
  with Nil show ?thesis by (simp add: insertion_point_def ordered_def)
next
  case (Cons t rest')
  assume o: "ordered L (s # rest)"
  with Cons have "lineIndex s < lineIndex t" and "lineIndex t < length L"
    by (simp_all add: ordered_def)
  with insertion_point_bounds [of s t L rest'] Cons show ?thesis by simp
qed

lemma insertion_point_chain:
  assumes "ordered L (s # rest)"
  shows "case rest of [] \<Rightarrow> True | t # rest' \<Rightarrow> insertion_point L s rest \<le> insertion_point L t rest'"
proof (cases rest)
  case Nil
  then show ?thesis by simp
next
  case (Cons t rest')
  from assms Cons have "lineIndex s < lineIndex t"
    by (simp add: ordered_def)
  from insertion_point_bounds [OF this, of L rest']
  have a: "insertion_point L s (t # rest') \<le> lineIndex t" by simp
  from assms Cons have "ordered L (t # rest')"
    by (simp add: ordered_Cons)
  from insertion_point_after [OF this] a Cons show ?thesis by simp
qed





lemma splice_section_weave:
  assumes ord: "ordered L secs" and i: "i < length secs"
    and blk: "blk = bucket_lines byKey"
  shows "splice_section byKey secs i (weave blk L 0 (drop (Suc i) secs)) = weave blk L 0 (drop i secs)"
proof -
  define s where "s = secs ! i"
  define rest where "rest = drop (Suc i) secs"
  define p where "p = insertion_point L s rest"
  define R where "R = weave blk L 0 rest"
  have split: "drop i secs = s # rest"
    using i by (simp add: s_def rest_def Cons_nth_drop_Suc)
  have os: "ordered L (s # rest)"
    using ordered_drop [OF ord, of i] split by simp
  have p_len: "p \<le> length L"
    using insertion_point_after [OF os] by (simp add: p_def)
  have chain: "case rest of [] \<Rightarrow> True | t # rest' \<Rightarrow> p \<le> insertion_point L t rest'"
    using insertion_point_chain [OF os] unfolding p_def .
  have R_eq: "R = take p L @ weave blk L p rest"
    using weave_shift [where pos = 0 and q = p and secs = rest and L = L and blk = blk, OF _ chain]
    by (simp add: R_def)
  have tk: "take p R = take p L" and dr: "drop p R = weave blk L p rest"
    using p_len by (simp_all add: R_eq)
  have at: "(if i + 1 < length secs then
               scan_back R (lineIndex (secs ! i))
                 (lineIndex (secs ! (i + 1))) (lineIndex (secs ! (i + 1)))
             else length R) = p"
  proof (cases rest)
    case Nil
    then have "\<not> i + 1 < length secs" by (simp add: rest_def)
    moreover have "R = L" using Nil by (simp add: R_def)
    ultimately show ?thesis using Nil by (simp add: p_def insertion_point_def)
  next
    case (Cons t rest')
    then have "drop (Suc i) secs \<noteq> []"
      by (simp add: rest_def)
    then have lt: "i + 1 < length secs"
      by simp
    have t: "secs ! (i + 1) = t"
      using Cons lt hd_drop_conv_nth [of "Suc i" secs] by (simp add: rest_def)
    let ?q = "insertion_point L t rest'"
    have ot: "ordered L (t # rest')"
      using os Cons by (simp add: ordered_Cons)
    from insertion_point_after [OF ot] have q: "lineIndex t < ?q" "?q \<le> length L"
      by simp_all
    have Rq: "R = take ?q L @ blk t @ weave blk L ?q rest'"
      using Cons by (simp add: R_def)
    have nth: "\<And>j. j < lineIndex t \<Longrightarrow> R ! j = L ! j"
      using q by (simp add: Rq nth_append)
    have len: "lineIndex t \<le> length R"
      using q by (simp add: Rq)
    have "scan_back R (lineIndex s) (lineIndex t) (lineIndex t) =
          (case filter (\<lambda>j. is_rule (R ! j)) (rev [Suc (lineIndex s)..<lineIndex t]) of
             [] \<Rightarrow> lineIndex t | j # _ \<Rightarrow> j)"
      by (rule scan_back_filter [OF len])
    also have "filter (\<lambda>j. is_rule (R ! j)) (rev [Suc (lineIndex s)..<lineIndex t]) =
               filter (\<lambda>j. is_rule (L ! j)) (rev [Suc (lineIndex s)..<lineIndex t])"
      by (rule filter_cong) (simp_all add: nth)
    finally show ?thesis
      using lt t Cons by (simp add: p_def insertion_point_def s_def)
  qed
  have goal: "weave blk L 0 (s # rest) = take p L @ blk s @ weave blk L p rest"
    by (simp add: p_def)
  have "splice_section byKey secs i R = take p L @ blk s @ weave blk L p rest"
  proof (cases "byKey (key s)")
    case None
    then show ?thesis
      using R_eq by (simp add: splice_section_def blk bucket_lines_def s_def [symmetric])
  next
    case (Some matched)
    show ?thesis
    proof (cases "matched = []")
      case True
      with Some show ?thesis
        using R_eq by (simp add: splice_section_def blk bucket_lines_def s_def [symmetric])
    next
      case False
      with Some at tk dr show ?thesis
        by (simp add: splice_section_def blk bucket_lines_def s_def [symmetric] Let_def)
    qed
  qed
  with goal split show ?thesis
    by (simp add: R_def rest_def)
qed

lemma splice_loop_weave_aux:
  assumes ord: "ordered L secs" and blk: "blk = bucket_lines byKey"
  shows "i \<le> length secs \<Longrightarrow>
         splice_loop byKey secs i (weave blk L 0 (drop i secs)) = weave blk L 0 secs"
proof (induction i)
  case 0
  then show ?case by simp
next
  case (Suc i)
  then have i: "i < length secs" by simp
  from splice_section_weave [OF ord i blk] Suc show ?case by simp
qed

lemma splice_loop_weave:
  assumes "ordered L secs"
  shows "splice_loop byKey secs (length secs) L = weave (bucket_lines byKey) L 0 secs"
  using splice_loop_weave_aux [OF assms refl, of "length secs" byKey] by simp


subsection \<open>Buckets\<close>

lemma has_key_iff: "has_key secs k \<longleftrightarrow> k \<in> key ` set secs"
  by (auto simp: has_key_def list_ex_iff)

lemma exactKey_not_Nil: "exactKey major minor = Some k \<Longrightarrow> k \<noteq> []"
  by (auto simp: exactKey_def split: option.splits if_splits)

lemma classify_bucket_of:
  "classify big secs st img =
     (case bucket_of big secs img of
        Some k \<Rightarrow> (push_key (fst st) k img, snd st)
      | None \<Rightarrow> (fst st, snd st @ [img]))"
  by (auto simp: classify_def bucket_of_def has_key_iff split: option.splits dest: exactKey_not_Nil)

lemma foldl_classify:
  "foldl (classify big secs) (m, u) imgs =
     ((\<lambda>k. if filter (\<lambda>i. bucket_of big secs i = Some k) imgs = [] then m k
            else Some ((case m k of None \<Rightarrow> [] | Some l \<Rightarrow> l) @ filter (\<lambda>i. bucket_of big secs i = Some k) imgs)),
      u @ filter (\<lambda>i. bucket_of big secs i = None) imgs)"
proof (induction imgs arbitrary: m u)
  case Nil
  then show ?case by simp
next
  case (Cons img imgs)
  show ?case
  proof (cases "bucket_of big secs img")
    case None
    then have step: "classify big secs (m, u) img = (m, u @ [img])"
      by (simp add: classify_bucket_of)
    show ?thesis
      by (auto simp: step Cons.IH None fun_eq_iff)
  next
    case (Some k)
    then have step: "classify big secs (m, u) img = (push_key m k img, u)"
      by (simp add: classify_bucket_of)
    show ?thesis
      by (auto simp: step Cons.IH Some push_key_def fun_eq_iff split: option.splits)
  qed
qed

lemma foldl_classify_empty:
  "foldl (classify big secs) (Map.empty, []) imgs =
     ((\<lambda>k. if filter (\<lambda>i. bucket_of big secs i = Some k) imgs = [] then None
            else Some (filter (\<lambda>i. bucket_of big secs i = Some k) imgs)),
      filter (\<lambda>i. bucket_of big secs i = None) imgs)"
  by (auto simp: foldl_classify fun_eq_iff)

lemma bucket_lines_classify:
  "bucket_lines (fst (foldl (classify big secs) (Map.empty, []) imgs)) =
     (\<lambda>s. map image_line (filter (\<lambda>a. bucket_of big secs a = Some (key s)) imgs))"
  by (auto simp: foldl_classify_empty bucket_lines_def fun_eq_iff)


subsection \<open>Counting the lines\<close>

lemma mset_weave:
  assumes "ordered L secs"
    and "case secs of [] \<Rightarrow> True | s # rest \<Rightarrow> pos \<le> insertion_point L s rest"
  shows "mset (weave blk L pos secs) = mset (drop pos L) + mset (concat (map blk secs))"
  using assms
proof (induction secs arbitrary: pos)
  case Nil
  then show ?case by simp
next
  case (Cons s rest)
  let ?p = "insertion_point L s rest"
  from Cons.prems have pos: "pos \<le> ?p" by simp
  have ord: "ordered L rest"
    using Cons.prems(1) by (simp add: ordered_Cons)
  have ih: "mset (weave blk L ?p rest) = mset (drop ?p L) + mset (concat (map blk rest))"
    by (rule Cons.IH [OF ord insertion_point_chain [OF Cons.prems(1)]])
  have "drop ?p L = drop (?p - pos) (drop pos L)"
    using pos by simp
  then have "mset (take (?p - pos) (drop pos L)) + mset (drop ?p L) = mset (drop pos L)"
    by (metis append_take_drop_id mset_append)
  then have F: "mset (drop pos L) = mset (take (?p - pos) (drop pos L)) + mset (drop ?p L)"
    by simp
  have "mset (weave blk L pos (s # rest)) =
        (mset (take (?p - pos) (drop pos L)) + mset (drop ?p L))
          + (mset (blk s) + mset (concat (map blk rest)))"
    by (simp add: ih)
  also have "\<dots> = mset (drop pos L) + (mset (blk s) + mset (concat (map blk rest)))"
    by (simp only: F)
  finally show ?case by simp
qed



lemma join_with_append:
  "A \<noteq> [] \<Longrightarrow> B \<noteq> [] \<Longrightarrow> join_with sep (A @ B) = join_with sep A @ sep @ join_with sep B"
proof (induction sep A rule: join_with.induct)
  case (1 sep)
  then show ?case by simp
next
  case (2 sep l)
  then show ?case by (cases B) simp_all
next
  case (3 sep l v va)
  then show ?case by simp
qed

lemma processedMarkdown_weave:
  assumes noref: "\<not> mdHasImageRefs md" and shots: "shots \<noteq> []"
    and secs: "secs = collect_sections big 0 (split_on 0x0A md)" and ne: "secs \<noteq> []"
  shows "processedMarkdown big srt md shots =
     join_with [0x0A]
       (append_unmatched (filter (\<lambda>a. bucket_of big secs a = None) (srt shots))
          (weave (\<lambda>s. map image_line (filter (\<lambda>a. bucket_of big secs a = Some (key s)) (srt shots)))
             (split_on 0x0A md) 0 secs))"
proof -
  have md: "md \<noteq> []"
    using ne secs by (auto simp: section_of_line_def h2Match_def h3Match_def starts_with_def ascii_def)
  define L where "L = split_on 0x0A md"
  define st where "st = foldl (classify big secs) (Map.empty, []) (srt shots)"
  have ord: "ordered L secs"
    unfolding secs L_def by (rule collect_sections_ordered)
  have "processedMarkdown big srt md shots = join_with [0x0A] (linked_lines big srt md shots)"
    using noref shots md ne secs by (simp add: processedMarkdown_def)
  also have "linked_lines big srt md shots =
             append_unmatched (snd st) (splice_loop (fst st) secs (length secs) L)"
    by (simp add: linked_lines_def Let_def secs L_def st_def)
  also have "splice_loop (fst st) secs (length secs) L = weave (bucket_lines (fst st)) L 0 secs"
    by (rule splice_loop_weave [OF ord])
  also have "bucket_lines (fst st) =
             (\<lambda>s. map image_line (filter (\<lambda>a. bucket_of big secs a = Some (key s)) (srt shots)))"
    unfolding st_def by (rule bucket_lines_classify)
  also have "snd st = filter (\<lambda>a. bucket_of big secs a = None) (srt shots)"
    unfolding st_def by (simp add: foldl_classify_empty)
  finally show ?thesis
    unfolding L_def .
qed

subsection \<open>Bucketing, insertion and appendix\<close>






text \<open>
  C7, as stated: every run with an unmatched asset ends with the appendix.  Without a
  numbered heading no asset has a bucket, but the Markdown is returned as it is.
\<close>

theorem no_heading_no_appendix:
  "\<not> mdHasImageRefs (ascii ''# Manual\<newline>text'')
   \<and> bucket_of id (collect_sections id 0 (split_on 0x0A (ascii ''# Manual\<newline>text'')))
        \<lparr>name = ascii ''03_extra.png'', dataUrl = []\<rparr> = None
   \<and> processedMarkdown id id (ascii ''# Manual\<newline>text'') [\<lparr>name = ascii ''03_extra.png'', dataUrl = []\<rparr>]
       = ascii ''# Manual\<newline>text''
   \<and> \<not> ends_with
         (join_with [0x0A] [rule_line, reference_heading, image_line \<lparr>name = ascii ''03_extra.png'', dataUrl = []\<rparr>])
         (processedMarkdown id id (ascii ''# Manual\<newline>text'') [\<lparr>name = ascii ''03_extra.png'', dataUrl = []\<rparr>])"
  by code_simp

text \<open>
  C7, amended: for a Markdown without image syntax and with at least one recorded
  heading, when some asset is unmatched the output is the linked lines followed by the
  separator line, the heading of the reference screenshots and one image line for each
  unmatched asset, in their sorted order; every original line is in the part before,
  and every unmatched asset has exactly one line in the appendix.
\<close>

theorem unmatched_appendix:
  assumes noref: "\<not> mdHasImageRefs md"
    and perm: "mset (srt shots) = mset shots"
    and secs: "secs = collect_sections big 0 (split_on 0x0A md)" and ne: "secs \<noteq> []"
    and un: "unmatched = filter (\<lambda>a. bucket_of big secs a = None) (srt shots)"
    and une: "unmatched \<noteq> []"
  shows "let body = weave (\<lambda>s. map image_line (filter (\<lambda>a. bucket_of big secs a = Some (key s)) (srt shots)))
                      (split_on 0x0A md) 0 secs;
             appendix = [rule_line, reference_heading] @ map image_line unmatched
         in processedMarkdown big srt md shots = join_with [0x0A] (body @ appendix)
            \<and> processedMarkdown big srt md shots =
                join_with [0x0A] body @ [0x0A] @ join_with [0x0A] appendix
            \<and> mset (split_on 0x0A md) \<subseteq># mset body
            \<and> mset unmatched = filter_mset (\<lambda>a. bucket_of big secs a = None) (mset shots)"
proof -
  let ?L = "split_on 0x0A md"
  let ?blk = "\<lambda>s. map image_line (filter (\<lambda>a. bucket_of big secs a = Some (key s)) (srt shots))"
  let ?body = "weave ?blk ?L 0 secs"
  let ?app = "[rule_line, reference_heading] @ map image_line unmatched"
  have shots: "shots \<noteq> []"
    using une un perm by auto
  have ord: "ordered ?L secs"
    unfolding secs by (rule collect_sections_ordered)
  have c: "case secs of [] \<Rightarrow> True | s # rest \<Rightarrow> 0 \<le> insertion_point ?L s rest"
    by (cases secs) simp_all
  have mb: "mset ?body = mset ?L + mset (concat (map ?blk secs))"
    using mset_weave [OF ord c, of ?blk] by simp
  then have sub: "mset ?L \<subseteq># mset ?body"
    by simp
  have "?L \<noteq> []" by (rule split_on_not_Nil)
  with mb have bne: "?body \<noteq> []"
    by (metis mset_zero_iff union_eq_empty)
  have out: "processedMarkdown big srt md shots = join_with [0x0A] (?body @ ?app)"
    using processedMarkdown_weave [OF noref shots secs ne, of srt] une
    by (simp add: append_unmatched_def un [symmetric])
  have str: "join_with [0x0A] (?body @ ?app) = join_with [0x0A] ?body @ [0x0A] @ join_with [0x0A] ?app"
    by (rule join_with_append [OF bne]) simp
  have cnt: "mset unmatched = filter_mset (\<lambda>a. bucket_of big secs a = None) (mset shots)"
    unfolding un by (simp add: perm)
  from out str sub cnt show ?thesis
    by (simp only: Let_def)
qed

text \<open>
  The scenario of the specification: the headings \<open>## 1.\<close> and \<open>## 2.\<close> and the asset
  \<open>03_extra.png\<close>.
\<close>

theorem unmatched_appendix_witness:
  "\<not> mdHasImageRefs (ascii ''## 1. A\<newline>text\<newline>## 2. B'')
   \<and> collect_sections id 0 (split_on 0x0A (ascii ''## 1. A\<newline>text\<newline>## 2. B''))
       = [\<lparr>lineIndex = 0, key = ascii ''1'', level = 2\<rparr>, \<lparr>lineIndex = 2, key = ascii ''2'', level = 2\<rparr>]
   \<and> bucket_of id [\<lparr>lineIndex = 0, key = ascii ''1'', level = 2\<rparr>, \<lparr>lineIndex = 2, key = ascii ''2'', level = 2\<rparr>]
        \<lparr>name = ascii ''03_extra.png'', dataUrl = []\<rparr> = None
   \<and> processedMarkdown id id (ascii ''## 1. A\<newline>text\<newline>## 2. B'') [\<lparr>name = ascii ''03_extra.png'', dataUrl = []\<rparr>]
       = join_with [0x0A]
           [ascii ''## 1. A'', ascii ''text'', ascii ''## 2. B'', rule_line, reference_heading,
            image_line \<lparr>name = ascii ''03_extra.png'', dataUrl = []\<rparr>]"
proof -
  let ?md = "ascii ''## 1. A\<newline>text\<newline>## 2. B''"
  let ?shot = "\<lparr>name = ascii ''03_extra.png'', dataUrl = []\<rparr>"
  let ?secs = "[\<lparr>lineIndex = 0, key = ascii ''1'', level = 2\<rparr>, \<lparr>lineIndex = 2, key = ascii ''2'', level = 2\<rparr>]"
  have h1: "\<not> mdHasImageRefs ?md" by code_simp
  have h2: "mset (id [?shot]) = mset [?shot]" by simp
  have h3: "?secs = collect_sections id 0 (split_on 0x0A ?md)" by code_simp
  have h4: "?secs \<noteq> []" by simp
  have b: "bucket_of id ?secs ?shot = None" by code_simp
  have h5: "[?shot] = filter (\<lambda>a. bucket_of id ?secs a = None) (id [?shot])"
    by (simp add: b)
  have h6: "[?shot] \<noteq> []" by simp
  have e: "weave (\<lambda>s. map image_line (filter (\<lambda>a. bucket_of id ?secs a = Some (key s)) (id [?shot])))
             (split_on 0x0A ?md) 0 ?secs = [ascii ''## 1. A'', ascii ''text'', ascii ''## 2. B'']"
    by code_simp
  have r: "processedMarkdown id id ?md [?shot] =
      join_with [0x0A] ([ascii ''## 1. A'', ascii ''text'', ascii ''## 2. B'']
        @ [rule_line, reference_heading] @ map image_line [?shot])"
    using unmatched_appendix [where srt = id and big = id and shots = "[?shot]" and md = ?md
      and secs = ?secs and unmatched = "[?shot]", OF h1 h2 h3 h4 h5 h6, unfolded Let_def e]
    by (rule conjunct1)
  have r2: "processedMarkdown id id ?md [?shot] =
      join_with [0x0A] [ascii ''## 1. A'', ascii ''text'', ascii ''## 2. B'', rule_line,
        reference_heading, image_line ?shot]"
    using r by (simp only: append.simps list.map)
  from h1 h3 [symmetric] b r2 show ?thesis
    by blast
qed

section \<open>Properties of the Paginator\<close>

subsection \<open>Blank text\<close>

lemma trim_Nil_iff: "trim s = [] \<longleftrightarrow> (\<forall>c\<in>set s. is_ws c)"
proof
  assume "trim s = []"
  then have all: "\<forall>c\<in>set (dropWhile is_ws s). is_ws c"
    by (simp add: trim_def)
  have "dropWhile is_ws s = []"
  proof (rule ccontr)
    assume ne: "dropWhile is_ws s \<noteq> []"
    then have "\<not> is_ws (hd (dropWhile is_ws s))" by (rule hd_dropWhile)
    moreover from ne have "hd (dropWhile is_ws s) \<in> set (dropWhile is_ws s)" by simp
    ultimately show False using all by blast
  qed
  then show "\<forall>c\<in>set s. is_ws c" by simp
next
  assume "\<forall>c\<in>set s. is_ws c"
  then have d: "dropWhile is_ws s = []" by simp
  show "trim s = []" unfolding trim_def d by simp
qed

lemma trim_append_right: "trim b \<noteq> [] \<Longrightarrow> trim (a @ b) \<noteq> []"
  by (auto simp: trim_Nil_iff)

lemma trim_id:
  assumes "s \<noteq> []" and "\<not> is_ws (hd s)" and "\<not> is_ws (last s)"
  shows "trim s = s"
proof -
  from assms have a: "dropWhile is_ws s = s"
    by (cases s) simp_all
  from assms have "rev s \<noteq> []" and "\<not> is_ws (hd (rev s))"
    by (simp_all add: hd_rev)
  then have "dropWhile is_ws (rev s) = rev s"
    by (cases "rev s") simp_all
  with a show ?thesis by (simp add: trim_def)
qed

subsection \<open>The pages hold the markup of the nodes\<close>

lemma page_step_concat:
  "concat (sections (page_step st n)) @ currentSection (page_step st n)
   = concat (sections st) @ currentSection st @ html n"
  by (simp add: page_step_def Let_def)

lemma foldl_page_step_concat:
  "concat (sections (foldl page_step st ns)) @ currentSection (foldl page_step st ns)
   = concat (sections st) @ currentSection st @ concat (map html ns)"
proof (induction ns arbitrary: st)
  case Nil
  then show ?case by simp
next
  case (Cons n ns)
  have "concat (sections (foldl page_step (page_step st n) ns)) @ currentSection (foldl page_step (page_step st n) ns)
        = (concat (sections (page_step st n)) @ currentSection (page_step st n)) @ concat (map html ns)"
    using Cons.IH [of "page_step st n"] by simp
  then show ?case
    by (simp add: page_step_concat)
qed

lemma page_step_visible:
  assumes "currentSection st = [] \<or> trim (currentSection st) \<noteq> []" and "trim (html n) \<noteq> []"
  shows "trim (currentSection (page_step st n)) \<noteq> []"
  using assms by (auto simp: page_step_def Let_def trim_append_right)

lemma foldl_page_step_visible:
  assumes "currentSection st = [] \<or> trim (currentSection st) \<noteq> []"
    and "\<forall>n\<in>set ns. trim (html n) \<noteq> []"
  shows "currentSection (foldl page_step st ns) = [] \<or> trim (currentSection (foldl page_step st ns)) \<noteq> []"
  using assms
proof (induction ns arbitrary: st)
  case Nil
  then show ?case by simp
next
  case (Cons n ns)
  from Cons.prems have "trim (currentSection (page_step st n)) \<noteq> []"
    by (intro page_step_visible) simp_all
  with Cons.IH [of "page_step st n"] Cons.prems(2) show ?case by simp
qed

lemma paginate_concat:
  assumes "\<forall>n\<in>set ns. trim (html n) \<noteq> []"
  shows "concat (paginate ns) = concat (map html ns)"
proof -
  let ?st = "foldl page_step page_init ns"
  have c: "concat (sections ?st) @ currentSection ?st = concat (map html ns)"
    using foldl_page_step_concat [of page_init ns] by (simp add: page_init_def)
  have v: "currentSection ?st = [] \<or> trim (currentSection ?st) \<noteq> []"
    by (rule foldl_page_step_visible) (simp_all add: page_init_def assms)
  from c v show ?thesis
    by (auto simp: paginate_def page_finish_def)
qed

lemma collect_node_snoc:
  "collect_node nodes el = nodes @ collect_node [] el"
  by (simp add: collect_node_def)

lemma foldl_collect_node:
  "foldl collect_node nodes els = nodes @ concat (map (collect_node []) els)"
proof (induction els arbitrary: nodes)
  case Nil
  then show ?case by simp
next
  case (Cons el els)
  show ?case
    by (simp add: Cons.IH [of "collect_node nodes el"]) (simp add: collect_node_snoc [of nodes el])
qed

lemma collect_nodes_concat: "collect_nodes els = concat (map (collect_node []) els)"
  by (simp add: collect_nodes_def foldl_collect_node)

lemma collect_node_visible:
  assumes "wf_child el" and "n \<in> set (collect_node [] el)"
  shows "trim (html n) \<noteq> []"
  using assms
  by (auto simp: collect_node_def wf_child_def truthy_def or_empty_def trim_Nil_iff
      split: if_splits option.splits)

lemma collect_nodes_visible:
  assumes "\<forall>el\<in>set els. wf_child el" and "n \<in> set (collect_nodes els)"
  shows "trim (html n) \<noteq> []"
  using assms collect_node_visible by (auto simp: collect_nodes_concat)


lemma H2_not_HR: "ascii ''H2'' \<noteq> ascii ''HR''"
  by (simp add: ascii_def)

lemma simple_step_concat:
  assumes "wf_child el" and "snd st = [] \<or> trim (snd st) \<noteq> []"
  shows "concat (fst (simple_step st el)) @ snd (simple_step st el)
           = concat (fst st) @ snd st @ concat (map html (collect_node [] el))
         \<and> (snd (simple_step st el) = [] \<or> trim (snd (simple_step st el)) \<noteq> [])"
proof (cases "tagName el")
  case None
  with assms(1) have o: "outerHTML el = None"
    by (simp add: wf_child_def)
  show ?thesis
    using assms(2) None o
    by (auto simp: simple_step_def collect_node_def truthy_def or_empty_def trim_Nil_iff
        split: option.splits)
next
  case (Some t)
  with assms(1) obtain h where o: "outerHTML el = Some h" and h: "trim h \<noteq> []"
    by (auto simp: wf_child_def split: option.splits)
  from h have hne: "h \<noteq> []"
    by (auto simp: trim_def)
  show ?thesis
    using assms(2) Some o h hne
    by (auto simp: simple_step_def collect_node_def truthy_def or_empty_def trim_append_right
        H2_not_HR)
qed

lemma foldl_simple_step_concat:
  assumes "\<forall>el\<in>set els. wf_child el" and "snd st = [] \<or> trim (snd st) \<noteq> []"
  shows "concat (fst (foldl simple_step st els)) @ snd (foldl simple_step st els)
           = concat (fst st) @ snd st @ concat (map html (concat (map (collect_node []) els)))
         \<and> (snd (foldl simple_step st els) = [] \<or> trim (snd (foldl simple_step st els)) \<noteq> [])"
  using assms
proof (induction els arbitrary: st)
  case Nil
  then show ?case by simp
next
  case (Cons el els)
  from Cons.prems have wf: "wf_child el" by simp
  note step = simple_step_concat [OF wf Cons.prems(2)]
  from Cons.prems(1) have rest: "\<forall>el\<in>set els. wf_child el" by simp
  note ih = Cons.IH [OF rest conjunct2 [OF step]]
  from ih step show ?case by simp
qed

lemma paginate_simple_concat:
  assumes "\<forall>el\<in>set els. wf_child el"
  shows "concat (paginate_simple els) = concat (map html (collect_nodes els))"
proof -
  have init: "snd ([] :: jstring list, [] :: jstring) = [] \<or> trim (snd ([] :: jstring list, [] :: jstring)) \<noteq> []"
    by simp
  from foldl_simple_step_concat [OF assms init] show ?thesis
    by (auto simp: paginate_simple_def Let_def collect_nodes_concat)
qed

text \<open>
  C3.  The pages, concatenated in order, are the markup of the nodes, concatenated in
  order: for the split by heading and height on every node sequence whose nodes have
  visible markup, which is what the flattening of well-formed children yields, and for
  the split by second-level heading on the same children.
\<close>

theorem pages_reconstruct_nodes:
  "((\<forall>n\<in>set ns. trim (html n) \<noteq> []) \<longrightarrow> concat (paginate ns) = concat (map html ns))
   \<and> ((\<forall>el\<in>set els. wf_child el) \<longrightarrow>
        (\<forall>n\<in>set (collect_nodes els). trim (html n) \<noteq> [])
        \<and> concat (paginate (collect_nodes els)) = concat (map html (collect_nodes els))
        \<and> concat (paginate_simple els) = concat (map html (collect_nodes els)))"
proof -
  have a: "(\<forall>n\<in>set ns. trim (html n) \<noteq> []) \<longrightarrow> concat (paginate ns) = concat (map html ns)"
    by (simp add: paginate_concat)
  have b: "(\<forall>el\<in>set els. wf_child el) \<longrightarrow>
        (\<forall>n\<in>set (collect_nodes els). trim (html n) \<noteq> [])
        \<and> concat (paginate (collect_nodes els)) = concat (map html (collect_nodes els))
        \<and> concat (paginate_simple els) = concat (map html (collect_nodes els))"
  proof
    assume wf: "\<forall>el\<in>set els. wf_child el"
    then have v: "\<forall>n\<in>set (collect_nodes els). trim (html n) \<noteq> []"
      using collect_nodes_visible by blast
    from v paginate_concat [OF v] paginate_simple_concat [OF wf]
    show "(\<forall>n\<in>set (collect_nodes els). trim (html n) \<noteq> [])
        \<and> concat (paginate (collect_nodes els)) = concat (map html (collect_nodes els))
        \<and> concat (paginate_simple els) = concat (map html (collect_nodes els))"
      by blast
  qed
  from a b show ?thesis by blast
qed

text \<open>
  An instance: a title, a blank text node, a rule, a second-level heading and a
  paragraph.
\<close>

theorem pages_reconstruct_nodes_witness:
  "collect_nodes
     [\<lparr>tagName = Some (ascii ''H1''), outerHTML = Some (ascii ''<h1>T</h1>''), textContent = Some (ascii ''T'')\<rparr>,
      \<lparr>tagName = None, outerHTML = None, textContent = Some [0x0A]\<rparr>,
      \<lparr>tagName = Some (ascii ''HR''), outerHTML = Some (ascii ''<hr>''), textContent = Some []\<rparr>,
      \<lparr>tagName = Some (ascii ''H2''), outerHTML = Some (ascii ''<h2>A</h2>''), textContent = Some (ascii ''A'')\<rparr>,
      \<lparr>tagName = Some (ascii ''P''), outerHTML = Some (ascii ''<p>x</p>''), textContent = Some (ascii ''x'')\<rparr>]
     = [\<lparr>tag = ascii ''H1'', html = ascii ''<h1>T</h1>'', isImage = False\<rparr>,
        \<lparr>tag = ascii ''H2'', html = ascii ''<h2>A</h2>'', isImage = False\<rparr>,
        \<lparr>tag = ascii ''P'', html = ascii ''<p>x</p>'', isImage = False\<rparr>]
   \<and> concat (paginate [\<lparr>tag = ascii ''H1'', html = ascii ''<h1>T</h1>'', isImage = False\<rparr>,
        \<lparr>tag = ascii ''H2'', html = ascii ''<h2>A</h2>'', isImage = False\<rparr>,
        \<lparr>tag = ascii ''P'', html = ascii ''<p>x</p>'', isImage = False\<rparr>])
       = ascii ''<h1>T</h1><h2>A</h2><p>x</p>''
   \<and> concat (paginate_simple
     [\<lparr>tagName = Some (ascii ''H1''), outerHTML = Some (ascii ''<h1>T</h1>''), textContent = Some (ascii ''T'')\<rparr>,
      \<lparr>tagName = None, outerHTML = None, textContent = Some [0x0A]\<rparr>,
      \<lparr>tagName = Some (ascii ''HR''), outerHTML = Some (ascii ''<hr>''), textContent = Some []\<rparr>,
      \<lparr>tagName = Some (ascii ''H2''), outerHTML = Some (ascii ''<h2>A</h2>''), textContent = Some (ascii ''A'')\<rparr>,
      \<lparr>tagName = Some (ascii ''P''), outerHTML = Some (ascii ''<p>x</p>''), textContent = Some (ascii ''x'')\<rparr>])
       = ascii ''<h1>T</h1><h2>A</h2><p>x</p>''"
proof -
  let ?els = "[\<lparr>tagName = Some (ascii ''H1''), outerHTML = Some (ascii ''<h1>T</h1>''), textContent = Some (ascii ''T'')\<rparr>,
      \<lparr>tagName = None, outerHTML = None, textContent = Some [0x0A]\<rparr>,
      \<lparr>tagName = Some (ascii ''HR''), outerHTML = Some (ascii ''<hr>''), textContent = Some []\<rparr>,
      \<lparr>tagName = Some (ascii ''H2''), outerHTML = Some (ascii ''<h2>A</h2>''), textContent = Some (ascii ''A'')\<rparr>,
      \<lparr>tagName = Some (ascii ''P''), outerHTML = Some (ascii ''<p>x</p>''), textContent = Some (ascii ''x'')\<rparr>]"
  let ?ns = "[\<lparr>tag = ascii ''H1'', html = ascii ''<h1>T</h1>'', isImage = False\<rparr>,
        \<lparr>tag = ascii ''H2'', html = ascii ''<h2>A</h2>'', isImage = False\<rparr>,
        \<lparr>tag = ascii ''P'', html = ascii ''<p>x</p>'', isImage = False\<rparr>]"
  have c: "collect_nodes ?els = ?ns" by code_simp
  have v: "\<forall>n\<in>set ?ns. trim (html n) \<noteq> []" by code_simp
  have w: "\<forall>el\<in>set ?els. wf_child el" by code_simp
  have m: "concat (map html ?ns) = ascii ''<h1>T</h1><h2>A</h2><p>x</p>''" by code_simp
  from pages_reconstruct_nodes [of ?ns ?els] v w
  have "concat (paginate ?ns) = concat (map html ?ns)"
    and "concat (paginate_simple ?els) = concat (map html (collect_nodes ?els))"
    by blast+
  with c m show ?thesis
    by simp
qed

subsection \<open>The pattern for a page that is only a heading\<close>

lemma body_suffix:
  assumes "0x3E \<in> set rest"
  shows "\<exists>pre. rest = pre @ tl (dropWhile (\<lambda>d. d \<noteq> (0x3E :: jchar)) rest)"
proof -
  from assms have "dropWhile (\<lambda>d. d \<noteq> (0x3E :: jchar)) rest \<noteq> []"
    by simp
  then obtain x body where d: "dropWhile (\<lambda>d. d \<noteq> (0x3E :: jchar)) rest = x # body"
    by (cases "dropWhile (\<lambda>d. d \<noteq> (0x3E :: jchar)) rest") auto
  have "rest = takeWhile (\<lambda>d. d \<noteq> (0x3E :: jchar)) rest @ dropWhile (\<lambda>d. d \<noteq> (0x3E :: jchar)) rest"
    by simp
  then have "rest = (takeWhile (\<lambda>d. d \<noteq> (0x3E :: jchar)) rest @ [x]) @ tl (dropWhile (\<lambda>d. d \<noteq> (0x3E :: jchar)) rest)"
    by (simp add: d)
  then show ?thesis ..
qed

lemma drop_suffix_5:
  assumes "s = pre @ body" and "5 \<le> length body"
  shows "drop (length s - 5) s = drop (length body - 5) body"
  using assms by simp

lemma isOnlyHeading_ends:
  assumes "isOnlyHeading s"
  shows "opening_heading s \<and> ends_closing_heading s"
proof -
  from assms obtain a b c rest where s: "s = a # b # c # rest"
    by (auto simp: isOnlyHeading_def split: list.splits)
  let ?body = "tl (dropWhile (\<lambda>d. d \<noteq> (0x3E :: jchar)) rest)"
  from assms s have o: "a = 0x3C \<and> is_h b \<and> is_1to4 c" and gt: "0x3E \<in> set rest"
    and len: "5 \<le> length ?body" and cl: "closing_heading (drop (length ?body - 5) ?body)"
    by (simp_all add: isOnlyHeading_def Let_def)
  from body_suffix [OF gt] obtain pre where "rest = pre @ ?body" ..
  then have sp: "s = (a # b # c # pre) @ ?body"
    by (simp add: s)
  have "length s = length (a # b # c # pre) + length ?body"
    by (subst sp) (simp only: length_append)
  with len have ls: "5 \<le> length s"
    by linarith
  have "ends_closing_heading s"
    unfolding ends_closing_heading_def drop_suffix_5 [OF sp len]
    using ls cl by blast
  with o s show ?thesis
    by (simp add: opening_heading_def)
qed

lemma closing_heading_iff:
  "closing_heading e \<longleftrightarrow> (\<exists>h d. e = [0x3C, 0x2F, h, d, 0x3E] \<and> is_h h \<and> is_1to4 d)"
  by (auto simp: closing_heading_def split: list.splits)

lemma isOnlyHeading_iff:
  "isOnlyHeading s \<longleftrightarrow>
     (\<exists>b c attrs inner h d. s = [0x3C, b, c] @ attrs @ [0x3E] @ inner @ [0x3C, 0x2F, h, d, 0x3E]
        \<and> is_h b \<and> is_1to4 c \<and> 0x3E \<notin> set attrs \<and> is_h h \<and> is_1to4 d)"
proof
  assume o: "isOnlyHeading s"
  then obtain a b c rest where s: "s = a # b # c # rest"
    by (auto simp: isOnlyHeading_def split: list.splits)
  let ?attrs = "takeWhile (\<lambda>d. d \<noteq> (0x3E :: jchar)) rest"
  let ?body = "tl (dropWhile (\<lambda>d. d \<noteq> (0x3E :: jchar)) rest)"
  from o s have a: "a = 0x3C" and b: "is_h b" and c: "is_1to4 c" and gt: "0x3E \<in> set rest"
    and len: "5 \<le> length ?body" and cl: "closing_heading (drop (length ?body - 5) ?body)"
    by (simp_all add: isOnlyHeading_def Let_def)
  from gt have "dropWhile (\<lambda>d. d \<noteq> (0x3E :: jchar)) rest \<noteq> []"
    by simp
  then have "dropWhile (\<lambda>d. d \<noteq> (0x3E :: jchar)) rest = 0x3E # ?body"
    using hd_dropWhile [of "\<lambda>d. d \<noteq> (0x3E :: jchar)" rest]
    by (cases "dropWhile (\<lambda>d. d \<noteq> (0x3E :: jchar)) rest") auto
  then have rest: "rest = ?attrs @ [0x3E] @ ?body"
    using takeWhile_dropWhile_id [of "\<lambda>d. d \<noteq> (0x3E :: jchar)" rest] by simp
  from cl obtain h d where e: "drop (length ?body - 5) ?body = [0x3C, 0x2F, h, d, 0x3E]"
    and h: "is_h h" and d: "is_1to4 d"
    by (auto simp: closing_heading_iff)
  have "?body = take (length ?body - 5) ?body @ drop (length ?body - 5) ?body"
    by (simp only: append_take_drop_id)
  then have "?body = take (length ?body - 5) ?body @ [0x3C, 0x2F, h, d, 0x3E]"
    by (simp only: e)
  with rest have "s = [0x3C, b, c] @ ?attrs @ [0x3E] @ take (length ?body - 5) ?body @ [0x3C, 0x2F, h, d, 0x3E]"
    using s a by simp
  moreover have "0x3E \<notin> set ?attrs"
    by (auto dest: set_takeWhileD)
  ultimately show "\<exists>b c attrs inner h d. s = [0x3C, b, c] @ attrs @ [0x3E] @ inner @ [0x3C, 0x2F, h, d, 0x3E]
        \<and> is_h b \<and> is_1to4 c \<and> 0x3E \<notin> set attrs \<and> is_h h \<and> is_1to4 d"
    using b c h d by blast
next
  assume "\<exists>b c attrs inner h d. s = [0x3C, b, c] @ attrs @ [0x3E] @ inner @ [0x3C, 0x2F, h, d, 0x3E]
        \<and> is_h b \<and> is_1to4 c \<and> 0x3E \<notin> set attrs \<and> is_h h \<and> is_1to4 d"
  then obtain b c attrs inner h d where
    s: "s = 0x3C # b # c # attrs @ 0x3E # inner @ [0x3C, 0x2F, h, d, 0x3E]"
    and b: "is_h b" and c: "is_1to4 c" and at: "0x3E \<notin> set attrs" and h: "is_h h" and d: "is_1to4 d"
    by auto
  let ?rest = "attrs @ 0x3E # inner @ [0x3C, 0x2F, h, d, 0x3E]"
  from at have dw: "dropWhile (\<lambda>d. d \<noteq> (0x3E :: jchar)) ?rest = 0x3E # inner @ [0x3C, 0x2F, h, d, 0x3E]"
    by (auto simp: dropWhile_append3)
  have cl: "closing_heading [0x3C, 0x2F, h, d, 0x3E]"
    using h d by (simp add: closing_heading_iff)
  show "isOnlyHeading s"
    using b c cl by (simp add: isOnlyHeading_def s dw)
qed

lemma heading_element_isOnlyHeading:
  assumes "heading_element s"
  shows "isOnlyHeading s"
  using assms
  by (auto simp: heading_element_def isOnlyHeading_def closing_heading_def Let_def
      split: list.splits)

lemma not_ws_lt: "\<not> is_ws 0x3C" and not_ws_gt: "\<not> is_ws 0x3E"
  by (simp_all add: is_ws_def is_line_terminator_def)

lemma closing_heading_last: "closing_heading e \<Longrightarrow> e \<noteq> [] \<and> last e = 0x3E"
  by (auto simp: closing_heading_def split: list.splits)

lemma isOnlyHeading_trim:
  assumes "isOnlyHeading s"
  shows "trim s = s"
proof (rule trim_id)
  from assms obtain a b c rest where s: "s = a # b # c # rest" and a: "a = 0x3C"
    by (auto simp: isOnlyHeading_def split: list.splits)
  show "s \<noteq> []" by (simp add: s)
  show "\<not> is_ws (hd s)" by (simp add: s a not_ws_lt)
  from isOnlyHeading_ends [OF assms] have len: "5 \<le> length s"
    and cl: "closing_heading (drop (length s - 5) s)"
    by (simp_all add: ends_closing_heading_def)
  from closing_heading_last [OF cl] have "last (drop (length s - 5) s) = 0x3E"
    by simp
  moreover have "last (drop (length s - 5) s) = last s"
    using len by (intro last_drop) simp
  ultimately show "\<not> is_ws (last s)"
    by (simp add: not_ws_gt)
qed

lemma heading_element_regex: "heading_element s \<Longrightarrow> isOnlyHeading (trim s)"
  using heading_element_isOnlyHeading [of s] isOnlyHeading_trim [of s] by simp

subsection \<open>The three cases of a step\<close>

lemma page_step_h2:
  assumes "tag n = ascii ''H2''" and "trim (currentSection st) \<noteq> []"
  shows "page_step st n = \<lparr>sections = sections st @ [currentSection st], currentSection = html n,
           currentHeight = estimateHeight n\<rparr>"
  using assms by (simp add: page_step_def)

lemma page_step_overflow:
  assumes "\<not> (tag n = ascii ''H2'' \<and> trim (currentSection st) \<noteq> [])"
    and "currentHeight st + estimateHeight n > MAX_PAGE_HEIGHT"
    and "trim (currentSection st) \<noteq> []" and "\<not> isOnlyHeading (trim (currentSection st))"
  shows "page_step st n = \<lparr>sections = sections st @ [currentSection st], currentSection = html n,
           currentHeight = estimateHeight n\<rparr>"
  using assms by (simp add: page_step_def Let_def)

lemma page_step_append:
  assumes "\<not> (tag n = ascii ''H2'' \<and> trim (currentSection st) \<noteq> [])"
    and "\<not> (currentHeight st + estimateHeight n > MAX_PAGE_HEIGHT
             \<and> trim (currentSection st) \<noteq> [] \<and> \<not> isOnlyHeading (trim (currentSection st)))"
  shows "page_step st n = \<lparr>sections = sections st, currentSection = currentSection st @ html n,
           currentHeight = currentHeight st + estimateHeight n\<rparr>"
  using assms by (auto simp: page_step_def Let_def)

lemma page_step_cases:
  obtains (h2) "tag n = ascii ''H2''" "trim (currentSection st) \<noteq> []"
      "page_step st n = \<lparr>sections = sections st @ [currentSection st], currentSection = html n,
           currentHeight = estimateHeight n\<rparr>"
  | (overflow) "\<not> (tag n = ascii ''H2'' \<and> trim (currentSection st) \<noteq> [])"
      "currentHeight st + estimateHeight n > MAX_PAGE_HEIGHT"
      "trim (currentSection st) \<noteq> []" "\<not> isOnlyHeading (trim (currentSection st))"
      "page_step st n = \<lparr>sections = sections st @ [currentSection st], currentSection = html n,
           currentHeight = estimateHeight n\<rparr>"
  | (append) "\<not> (tag n = ascii ''H2'' \<and> trim (currentSection st) \<noteq> [])"
      "\<not> (currentHeight st + estimateHeight n > MAX_PAGE_HEIGHT
             \<and> trim (currentSection st) \<noteq> [] \<and> \<not> isOnlyHeading (trim (currentSection st)))"
      "page_step st n = \<lparr>sections = sections st, currentSection = currentSection st @ html n,
           currentHeight = currentHeight st + estimateHeight n\<rparr>"
  using page_step_h2 [of n st] page_step_overflow [of n st] page_step_append [of n st]
  by blast

lemma page_step_visible_pages:
  assumes "\<forall>p\<in>set (sections st). trim p \<noteq> []"
  shows "\<forall>p\<in>set (sections (page_step st n)). trim p \<noteq> []"
  using assms by (cases st n rule: page_step_cases) auto

lemma foldl_page_step_visible_pages:
  assumes "\<forall>p\<in>set (sections st). trim p \<noteq> []"
  shows "\<forall>p\<in>set (sections (foldl page_step st ns)). trim p \<noteq> []"
  using assms
proof (induction ns arbitrary: st)
  case Nil
  then show ?case by simp
next
  case (Cons n ns)
  from Cons.IH [OF page_step_visible_pages [OF Cons.prems]] show ?case by simp
qed

lemma paginate_visible: "\<forall>p\<in>set (paginate ns). trim p \<noteq> []"
  using foldl_page_step_visible_pages [of page_init ns]
  by (auto simp: paginate_def page_finish_def page_init_def)

subsection \<open>Breaks before a second-level heading\<close>

lemma starts_with_append:
  assumes "starts_with p q"
  shows "starts_with p (q @ r)"
proof -
  from assms have t: "take (length p) q = p"
    by (simp add: starts_with_def)
  then have "length (take (length p) q) = length p"
    by simp
  then have "length p \<le> length q"
    by simp
  with t show ?thesis
    by (simp add: starts_with_def)
qed

lemma starts_with_refl: "starts_with p p"
  by (simp add: starts_with_def)

lemma h2_break_append: "h2_break ns p q \<Longrightarrow> h2_break ns p (q @ r)"
  by (auto simp: h2_break_def list_ex_iff starts_with_append)

lemma h2_break_h2: "n \<in> set ns \<Longrightarrow> tag n = ascii ''H2'' \<Longrightarrow> h2_break ns p (html n)"
  by (auto simp: h2_break_def list_ex_iff starts_with_refl)

lemma h2_break_overflow: "\<not> isOnlyHeading (trim p) \<Longrightarrow> h2_break ns p q"
  using heading_element_regex [of p] by (auto simp: h2_break_def)

lemma successively_snoc:
  "successively P (xs @ [x]) \<longleftrightarrow> successively P xs \<and> (xs = [] \<or> P (last xs) x)"
  by (simp add: successively_append_iff)

lemma successively_nth:
  "successively P xs \<Longrightarrow> Suc i < length xs \<Longrightarrow> P (xs ! i) (xs ! Suc i)"
proof (induction xs arbitrary: i)
  case Nil
  then show ?case by simp
next
  case (Cons x xs)
  then show ?case
    by (cases i) (auto simp: successively_Cons hd_conv_nth)
qed

lemma page_step_breaks:
  assumes "n \<in> set ns"
    and "successively (h2_break ns) (sections st @ [currentSection st])"
  shows "successively (h2_break ns) (sections (page_step st n) @ [currentSection (page_step st n)])"
proof (cases st n rule: page_step_cases)
  case h2
  have "h2_break ns (currentSection st) (html n)"
    using assms(1) h2(1) by (rule h2_break_h2)
  with assms(2) show ?thesis
    using successively_snoc [of "h2_break ns" "sections st @ [currentSection st]" "html n"]
    by (simp add: h2(3))
next
  case overflow
  have "h2_break ns (currentSection st) (html n)"
    using overflow(4) by (rule h2_break_overflow)
  with assms(2) show ?thesis
    using successively_snoc [of "h2_break ns" "sections st @ [currentSection st]" "html n"]
    by (simp add: overflow(5))
next
  case append
  from assms(2) have "successively (h2_break ns) (sections st)"
    and "sections st = [] \<or> h2_break ns (last (sections st)) (currentSection st)"
    by (simp_all add: successively_snoc)
  then show ?thesis
    by (auto simp: append(3) successively_snoc h2_break_append)
qed

lemma foldl_page_step_breaks:
  assumes "set ms \<subseteq> set ns"
    and "successively (h2_break ns) (sections st @ [currentSection st])"
  shows "successively (h2_break ns)
           (sections (foldl page_step st ms) @ [currentSection (foldl page_step st ms)])"
  using assms
proof (induction ms arbitrary: st)
  case Nil
  then show ?case by simp
next
  case (Cons n ms)
  from Cons.prems have n: "n \<in> set ns" and ms: "set ms \<subseteq> set ns"
    by simp_all
  from Cons.IH [OF ms page_step_breaks [OF n Cons.prems(2)]] show ?case by simp
qed

lemma paginate_breaks: "successively (h2_break ns) (paginate ns)"
proof -
  let ?st = "foldl page_step page_init ns"
  have "successively (h2_break ns) (sections ?st @ [currentSection ?st])"
    by (rule foldl_page_step_breaks) (simp_all add: page_init_def)
  then show ?thesis
    by (auto simp: paginate_def page_finish_def successively_snoc)
qed

text \<open>
  C2, as stated: no page is a single heading element when nodes follow it.  A
  second-level heading that comes right after the title pushes the title out alone.
\<close>

theorem h2_flush_strands_heading:
  "paginate [\<lparr>tag = ascii ''H1'', html = ascii ''<h1>T</h1>'', isImage = False\<rparr>,
             \<lparr>tag = ascii ''H2'', html = ascii ''<h2>A</h2>'', isImage = False\<rparr>,
             \<lparr>tag = ascii ''P'', html = ascii ''<p>x</p>'', isImage = False\<rparr>]
     = [ascii ''<h1>T</h1>'', ascii ''<h2>A</h2><p>x</p>'']
   \<and> heading_element (ascii ''<h1>T</h1>'')"
  by code_simp

text \<open>
  C2, amended: a page that is followed by another page and is a single heading element
  was pushed out by a second-level heading: the next page begins with the markup of an
  \<open>H2\<close> node.  The flush on height overflow never pushes out a single heading element.
\<close>

theorem heading_page_only_before_h2:
  assumes "Suc i < length (paginate ns)" and "heading_element (paginate ns ! i)"
  shows "\<exists>n\<in>set ns. tag n = ascii ''H2'' \<and> starts_with (html n) (paginate ns ! Suc i)"
  using successively_nth [OF paginate_breaks assms(1)] assms(2)
  by (simp add: h2_break_def list_ex_iff)

theorem heading_page_only_before_h2_witness:
  "Suc 0 < length (paginate [\<lparr>tag = ascii ''H1'', html = ascii ''<h1>T</h1>'', isImage = False\<rparr>,
             \<lparr>tag = ascii ''H2'', html = ascii ''<h2>A</h2>'', isImage = False\<rparr>,
             \<lparr>tag = ascii ''P'', html = ascii ''<p>x</p>'', isImage = False\<rparr>])
   \<and> heading_element (paginate [\<lparr>tag = ascii ''H1'', html = ascii ''<h1>T</h1>'', isImage = False\<rparr>,
             \<lparr>tag = ascii ''H2'', html = ascii ''<h2>A</h2>'', isImage = False\<rparr>,
             \<lparr>tag = ascii ''P'', html = ascii ''<p>x</p>'', isImage = False\<rparr>] ! 0)
   \<and> (\<exists>n\<in>set [\<lparr>tag = ascii ''H1'', html = ascii ''<h1>T</h1>'', isImage = False\<rparr>,
             \<lparr>tag = ascii ''H2'', html = ascii ''<h2>A</h2>'', isImage = False\<rparr>,
             \<lparr>tag = ascii ''P'', html = ascii ''<p>x</p>'', isImage = False\<rparr>].
          tag n = ascii ''H2'' \<and>
          starts_with (html n)
            (paginate [\<lparr>tag = ascii ''H1'', html = ascii ''<h1>T</h1>'', isImage = False\<rparr>,
               \<lparr>tag = ascii ''H2'', html = ascii ''<h2>A</h2>'', isImage = False\<rparr>,
               \<lparr>tag = ascii ''P'', html = ascii ''<p>x</p>'', isImage = False\<rparr>] ! Suc 0))"
proof -
  let ?ns = "[\<lparr>tag = ascii ''H1'', html = ascii ''<h1>T</h1>'', isImage = False\<rparr>,
             \<lparr>tag = ascii ''H2'', html = ascii ''<h2>A</h2>'', isImage = False\<rparr>,
             \<lparr>tag = ascii ''P'', html = ascii ''<p>x</p>'', isImage = False\<rparr>]"
  have h1: "Suc 0 < length (paginate ?ns)" by code_simp
  have h2: "heading_element (paginate ?ns ! 0)" by code_simp
  from heading_page_only_before_h2 [OF h1 h2] h1 h2 show ?thesis
    by blast
qed

subsection \<open>The flush rule\<close>

text \<open>
  C6.  Of the rule, the code keeps the part on second-level headings
  (\<open>page_step_h2\<close>) and emits no blank page (\<open>paginate_visible\<close>).  The part on
  height overflow it misses: the pattern that is to recognise a page holding only a
  heading also accepts a page of several elements that begins and ends with heading
  tags.  Here the page holds a second-level heading, a paragraph, an image and a
  third-level heading, 505 units in all; with the next image the budget of 880 is
  exceeded and the page is not a bare heading, yet it is not flushed, and the one page
  that results has 905 units.
\<close>

theorem overflow_kept_after_trailing_heading:
  "foldl page_step page_init
     [\<lparr>tag = ascii ''H2'', html = ascii ''<h2>A</h2>'', isImage = False\<rparr>,
      \<lparr>tag = ascii ''P'', html = ascii ''<p>x</p>'', isImage = False\<rparr>,
      \<lparr>tag = ascii ''IMG'', html = ascii ''<img src=a.png>'', isImage = True\<rparr>,
      \<lparr>tag = ascii ''H3'', html = ascii ''<h3>B</h3>'', isImage = False\<rparr>]
     = \<lparr>sections = [], currentSection = ascii ''<h2>A</h2><p>x</p><img src=a.png><h3>B</h3>'',
        currentHeight = 505\<rparr>
   \<and> 505 + estimateHeight \<lparr>tag = ascii ''IMG'', html = ascii ''<img src=b.png>'', isImage = True\<rparr> = 905
   \<and> 905 > MAX_PAGE_HEIGHT
   \<and> trim (ascii ''<h2>A</h2><p>x</p><img src=a.png><h3>B</h3>'') \<noteq> []
   \<and> \<not> heading_element (ascii ''<h2>A</h2><p>x</p><img src=a.png><h3>B</h3>'')
   \<and> isOnlyHeading (trim (ascii ''<h2>A</h2><p>x</p><img src=a.png><h3>B</h3>''))
   \<and> page_step
        \<lparr>sections = [], currentSection = ascii ''<h2>A</h2><p>x</p><img src=a.png><h3>B</h3>'',
         currentHeight = 505\<rparr>
        \<lparr>tag = ascii ''IMG'', html = ascii ''<img src=b.png>'', isImage = True\<rparr>
     = \<lparr>sections = [],
        currentSection = ascii ''<h2>A</h2><p>x</p><img src=a.png><h3>B</h3><img src=b.png>'',
        currentHeight = 905\<rparr>
   \<and> paginate
     [\<lparr>tag = ascii ''H2'', html = ascii ''<h2>A</h2>'', isImage = False\<rparr>,
      \<lparr>tag = ascii ''P'', html = ascii ''<p>x</p>'', isImage = False\<rparr>,
      \<lparr>tag = ascii ''IMG'', html = ascii ''<img src=a.png>'', isImage = True\<rparr>,
      \<lparr>tag = ascii ''H3'', html = ascii ''<h3>B</h3>'', isImage = False\<rparr>,
      \<lparr>tag = ascii ''IMG'', html = ascii ''<img src=b.png>'', isImage = True\<rparr>]
     = [ascii ''<h2>A</h2><p>x</p><img src=a.png><h3>B</h3><img src=b.png>'']"
  by code_simp

end
